theory Spec2Isabelle
  imports Main "HOL-Library.Monad_Syntax"
begin

section \<open>Memory model\<close>

text \<open>
  A \<^verbatim>\<open>*node\<close> is an address, \<open>None\<close> is the nil pointer.  The node objects live in
  a store \<open>nodes\<close> (address to node); \<open>nalloc\<close> is the next address that
  \<^verbatim>\<open>&node{...}\<close> hands out.  Go is garbage collected: an unlinked node
  simply stays in the store.  An \<^verbatim>\<open>interface{}\<close> key or value is an option, \<open>None\<close>
  being nil, and \<^verbatim>\<open>==\<close> on keys is equality of these options.

  Every operation that can panic (nil dereference, index or slice bound out of range) or loop
  forever returns an option: \<open>None\<close> means that the Go code does not return normally.
\<close>

type_synonym addr = nat

record ('k, 'v) node =
  forward :: "addr option list"
  backward :: "addr option"
  key :: "'k option"
  val :: "'v option"

record ('k, 'v) SkipList =
  lessThan :: "'k option \<Rightarrow> 'k option \<Rightarrow> bool"
  header :: addr
  footer :: "addr option"
  length_sl :: int
  update :: "addr option list"
  nodes :: "addr \<Rightarrow> ('k, 'v) node"
  nalloc :: addr

record ('k, 'v) iter =
  current :: "addr option"
  ikey :: "'k option"
  ivalue :: "'v option"

record ('k, 'v) rangeIterator = "('k, 'v) iter" +
  upperLimit :: "'k option"
  lowerLimit :: "'k option"

definition DefaultMaxLevel :: int where
  "DefaultMaxLevel = 32"

text \<open>The zero value of \<^verbatim>\<open>node\<close>.\<close>

definition zero_node :: "('k, 'v) node" where
  "zero_node = \<lparr>forward = [], backward = None, key = None, val = None\<rparr>"

text \<open>Go's index expression \<^verbatim>\<open>xs[i]\<close> and slice expression \<^verbatim>\<open>xs[:hi]\<close>
  (the capacity of every slice sliced in the source equals its length).\<close>

definition index :: "'a list \<Rightarrow> int \<Rightarrow> 'a option" where
  "index xs i = (if 0 \<le> i \<and> i < int (length xs) then Some (xs ! nat i) else None)"

definition slice_to :: "'a list \<Rightarrow> int \<Rightarrow> 'a list option" where
  "slice_to xs hi = (if 0 \<le> hi \<and> hi \<le> int (length xs) then Some (take (nat hi) xs) else None)"

text \<open>\<^verbatim>\<open>xs[i] = v\<close>.\<close>

definition assign :: "'a list \<Rightarrow> int \<Rightarrow> 'a \<Rightarrow> 'a list option" where
  "assign xs i v = (if 0 \<le> i \<and> i < int (length xs) then Some (xs[nat i := v]) else None)"

text \<open>\<^verbatim>\<open>a.forward[i]\<close> and \<^verbatim>\<open>a.forward[i] = v\<close> through a non-nil pointer \<open>a\<close>.\<close>

definition get_forward :: "(addr \<Rightarrow> ('k, 'v) node) \<Rightarrow> addr \<Rightarrow> int \<Rightarrow> addr option option" where
  "get_forward h a i = index (forward (h a)) i"

definition set_forward ::
  "(addr \<Rightarrow> ('k, 'v) node) \<Rightarrow> addr \<Rightarrow> int \<Rightarrow> addr option \<Rightarrow> (addr \<Rightarrow> ('k, 'v) node) option" where
  "set_forward h a i v =
     map_option (\<lambda>f. h(a := (h a)\<lparr>forward := f\<rparr>)) (assign (forward (h a)) i v)"

section \<open>Nodes\<close>

definition node_next :: "('k, 'v) node \<Rightarrow> addr option" where
  "node_next n = (if length (forward n) = 0 then None else forward n ! 0)"

definition node_previous :: "('k, 'v) node \<Rightarrow> addr option" where
  "node_previous n = backward n"

definition hasNext :: "('k, 'v) node \<Rightarrow> bool" where
  "hasNext n = (node_next n \<noteq> None)"

definition hasPrevious :: "('k, 'v) node \<Rightarrow> bool" where
  "hasPrevious n = (node_previous n \<noteq> None)"

section \<open>Level policy\<close>

definition Len :: "('k, 'v) SkipList \<Rightarrow> int" where
  "Len s = length_sl s"

definition level :: "('k, 'v) SkipList \<Rightarrow> int" where
  "level s = int (length (forward (nodes s (header s)))) - 1"

definition maxInt :: "int \<Rightarrow> int \<Rightarrow> int" where
  "maxInt x y = (if x > y then x else y)"

definition effectiveMaxLevel :: "('k, 'v) SkipList \<Rightarrow> int" where
  "effectiveMaxLevel s = maxInt (level s) DefaultMaxLevel"

text \<open>
  \<open>coins n\<close> is the outcome of the test \<^verbatim>\<open>rand.Float64() < p\<close> at the \<open>n\<close>-th draw
  of one call of \<^verbatim>\<open>randomLevel\<close>.
\<close>

function randomLevel_loop :: "('k, 'v) SkipList \<Rightarrow> (nat \<Rightarrow> bool) \<Rightarrow> int \<Rightarrow> int" where
  "randomLevel_loop s coins n =
     (if n < effectiveMaxLevel s \<and> coins (nat n) then randomLevel_loop s coins (n + 1) else n)"
  by pat_completeness auto
termination
  by (relation "measure (\<lambda>(s, coins, n). nat (effectiveMaxLevel s - n))") auto

definition randomLevel :: "('k, 'v) SkipList \<Rightarrow> (nat \<Rightarrow> bool) \<Rightarrow> int" where
  "randomLevel s coins = randomLevel_loop s coins 0"

section \<open>Path search\<close>

text \<open>The inner loop of \<^verbatim>\<open>getPath\<close> at level \<open>i\<close>.\<close>

partial_function (option) getPath_advance ::
  "('k, 'v) SkipList \<Rightarrow> int \<Rightarrow> addr \<Rightarrow> 'k option \<Rightarrow> addr option" where
  "getPath_advance s i cur k =
     (case get_forward (nodes s) cur i of
        None \<Rightarrow> None
      | Some None \<Rightarrow> Some cur
      | Some (Some n) \<Rightarrow>
          if lessThan s (key (nodes s n)) k then getPath_advance s i n k else Some cur)"

declare getPath_advance.simps [code]

text \<open>
  The outer loop, \<^verbatim>\<open>for i := depth; i >= 0; i--\<close>: \<open>getPath_levels s n\<close> runs the
  levels \<open>n - 1\<close> down to \<open>0\<close>.  The \<^verbatim>\<open>update\<close> argument is \<open>None\<close> for a nil slice.
\<close>

fun getPath_levels ::
  "('k, 'v) SkipList \<Rightarrow> nat \<Rightarrow> addr \<Rightarrow> addr option list option \<Rightarrow> 'k option
     \<Rightarrow> (addr \<times> addr option list option) option" where
  "getPath_levels s 0 cur upd k = Some (cur, upd)"
| "getPath_levels s (Suc i) cur upd k =
     (case getPath_advance s (int i) cur k of
        None \<Rightarrow> None
      | Some c \<Rightarrow>
          (case upd of
             None \<Rightarrow> getPath_levels s i c None k
           | Some u \<Rightarrow>
               (case assign u (int i) (Some c) of
                  None \<Rightarrow> None
                | Some u' \<Rightarrow> getPath_levels s i c (Some u') k)))"

definition getPath ::
  "('k, 'v) SkipList \<Rightarrow> addr \<Rightarrow> addr option list option \<Rightarrow> 'k option
     \<Rightarrow> (addr option \<times> addr option list option) option" where
  "getPath s cur upd k =
     (case getPath_levels s (length (forward (nodes s cur))) cur upd k of
        None \<Rightarrow> None
      | Some (c, u) \<Rightarrow> Some (node_next (nodes s c), u))"

section \<open>Lookup\<close>

definition Get :: "('k, 'v) SkipList \<Rightarrow> 'k option \<Rightarrow> ('v option \<times> bool) option" where
  "Get s k =
     (case getPath s (header s) None k of
        None \<Rightarrow> None
      | Some (candidate, u) \<Rightarrow>
          (case candidate of
             None \<Rightarrow> Some (None, False)
           | Some c \<Rightarrow>
               if key (nodes s c) \<noteq> k then Some (None, False)
               else Some (val (nodes s c), True)))"

definition GetGreaterOrEqual ::
  "('k, 'v) SkipList \<Rightarrow> 'k option \<Rightarrow> ('k option \<times> 'v option \<times> bool) option" where
  "GetGreaterOrEqual s k =
     (case getPath s (header s) None k of
        None \<Rightarrow> None
      | Some (candidate, u) \<Rightarrow>
          (case candidate of
             Some c \<Rightarrow> Some (key (nodes s c), val (nodes s c), True)
           | None \<Rightarrow> Some (None, None, False)))"

section \<open>Insertion\<close>

text \<open>
  The local slice \<^verbatim>\<open>update := s.update[:s.level()+1]\<close> shares its backing array with
  \<^verbatim>\<open>s.update\<close>: what is written through it, and what \<^verbatim>\<open>append\<close> adds while the
  capacity lasts, shows in \<^verbatim>\<open>s.update\<close>.
\<close>

definition store_update :: "('k, 'v) SkipList \<Rightarrow> addr option list \<Rightarrow> ('k, 'v) SkipList" where
  "store_update s u = s\<lparr>update := take (length (update s)) u @ drop (length u) (update s)\<rparr>"

text \<open>\<^verbatim>\<open>for i := currentLevel + 1; i <= newLevel; i++\<close>: the header and the path grow.\<close>

function Set_grow ::
  "('k, 'v) SkipList \<Rightarrow> addr option list \<Rightarrow> int \<Rightarrow> int
     \<Rightarrow> ('k, 'v) SkipList \<times> addr option list" where
  "Set_grow s upd i newLevel =
     (if i \<le> newLevel
      then Set_grow
             (s\<lparr>nodes := (nodes s)(header s :=
                  (nodes s (header s))\<lparr>forward := forward (nodes s (header s)) @ [None]\<rparr>)\<rparr>)
             (upd @ [Some (header s)]) (i + 1) newLevel
      else (s, upd))"
  by pat_completeness auto
termination
  by (relation "measure (\<lambda>(s, upd, i, newLevel). nat (newLevel + 1 - i))") auto

text \<open>\<^verbatim>\<open>for i := 0; i <= newLevel; i++\<close>: the new node is spliced in at every level.\<close>

function Set_splice ::
  "(addr \<Rightarrow> ('k, 'v) node) \<Rightarrow> addr option list \<Rightarrow> addr \<Rightarrow> int \<Rightarrow> int
     \<Rightarrow> (addr \<Rightarrow> ('k, 'v) node) option" where
  "Set_splice h upd newNode i newLevel =
     (if i \<le> newLevel
      then (case index upd i of
              None \<Rightarrow> None
            | Some None \<Rightarrow> None
            | Some (Some p) \<Rightarrow>
                (case get_forward h p i of
                   None \<Rightarrow> None
                 | Some nx \<Rightarrow>
                     (case set_forward h newNode i nx of
                        None \<Rightarrow> None
                      | Some h1 \<Rightarrow>
                          (case set_forward h1 p i (Some newNode) of
                             None \<Rightarrow> None
                           | Some h2 \<Rightarrow> Set_splice h2 upd newNode (i + 1) newLevel))))
      else Some h)"
  by pat_completeness auto
termination
  by (relation "measure (\<lambda>(h, upd, newNode, i, newLevel). nat (newLevel + 1 - i))") auto

text \<open>
  The part of \<^verbatim>\<open>Set\<close> from \<^verbatim>\<open>newNode := &node{...}\<close> on: the node is made
  (\<^verbatim>\<open>make\<close> panics when the length is negative or exceeds the capacity), linked in at every
  level, and the count and the footer follow.
\<close>

definition Set_link ::
  "('k, 'v) SkipList \<Rightarrow> addr option list \<Rightarrow> 'k option \<Rightarrow> 'v option \<Rightarrow> int
     \<Rightarrow> ('k, 'v) SkipList option" where
  "Set_link s1 upd k v newLevel =
     (if \<not> (0 \<le> newLevel + 1 \<and> newLevel + 1 \<le> effectiveMaxLevel s1 + 1) then None
      else
        let newNode = nalloc s1;
            n0 = \<lparr>forward = replicate (nat (newLevel + 1)) None, backward = None,
                   key = k, val = v\<rparr>
        in (case index upd 0 of
              None \<Rightarrow> None
            | Some None \<Rightarrow> None
            | Some (Some previous) \<Rightarrow>
                let n1 = (if key (nodes s1 previous) \<noteq> None
                          then n0\<lparr>backward := Some previous\<rparr> else n0);
                    h1 = (nodes s1)(newNode := n1)
                in (case Set_splice h1 upd newNode 0 newLevel of
                      None \<Rightarrow> None
                    | Some h2 \<Rightarrow>
                        (case get_forward h2 newNode 0 of
                           None \<Rightarrow> None
                         | Some nx \<Rightarrow>
                             let h3 = (case nx of
                                         None \<Rightarrow> h2
                                       | Some f \<Rightarrow>
                                           if backward (h2 f) \<noteq> Some newNode
                                           then h2(f := (h2 f)\<lparr>backward := Some newNode\<rparr>)
                                           else h2);
                                 ft = (case footer s1 of
                                         None \<Rightarrow> Some newNode
                                       | Some f \<Rightarrow>
                                           if lessThan s1 (key (h3 f)) k
                                           then Some newNode else Some f)
                             in Some (s1\<lparr>nodes := h3, nalloc := newNode + 1,
                                         length_sl := length_sl s1 + 1, footer := ft\<rparr>)))))"

text \<open>The part of \<^verbatim>\<open>Set\<close> after the exact-match test: the level is drawn, and the header
  and the path grow to it.\<close>

definition Set_insert ::
  "('k, 'v) SkipList \<Rightarrow> addr option list \<Rightarrow> 'k option \<Rightarrow> 'v option \<Rightarrow> (nat \<Rightarrow> bool)
     \<Rightarrow> ('k, 'v) SkipList option" where
  "Set_insert s upd0 k v coins =
     (let newLevel = randomLevel s coins;
          currentLevel = level s;
          (s1, upd) = (if newLevel > currentLevel
                       then (case Set_grow s upd0 (currentLevel + 1) newLevel of
                               (s', u') \<Rightarrow> (store_update s' u', u'))
                       else (s, upd0))
      in Set_link s1 upd k v newLevel)"

definition Set ::
  "('k, 'v) SkipList \<Rightarrow> 'k option \<Rightarrow> 'v option \<Rightarrow> (nat \<Rightarrow> bool) \<Rightarrow> ('k, 'v) SkipList option" where
  "Set s k v coins =
     (if k = None then Some s
      else
        (case slice_to (update s) (level s + 1) of
           None \<Rightarrow> None
         | Some upd0 \<Rightarrow>
             (case getPath s (header s) (Some upd0) k of
                None \<Rightarrow> None
              | Some (candidate, None) \<Rightarrow> None
              | Some (candidate, Some upd) \<Rightarrow>
                  let s1 = store_update s upd
                  in (case candidate of
                        None \<Rightarrow> Set_insert s1 upd k v coins
                      | Some c \<Rightarrow>
                          if key (nodes s1 c) = k
                          then Some (s1\<lparr>nodes := (nodes s1)(c := (nodes s1 c)\<lparr>val := v\<rparr>)\<rparr>)
                          else Set_insert s1 upd k v coins))))"

section \<open>Deletion\<close>

text \<open>\<^verbatim>\<open>for i := 0; i <= s.level() && update[i].forward[i] == candidate; i++\<close>.\<close>

function Delete_unsplice ::
  "('k, 'v) SkipList \<Rightarrow> addr option list \<Rightarrow> addr \<Rightarrow> int \<Rightarrow> ('k, 'v) SkipList option" where
  "Delete_unsplice s upd candidate i =
     (if i \<le> level s
      then (case index upd i of
              None \<Rightarrow> None
            | Some None \<Rightarrow> None
            | Some (Some p) \<Rightarrow>
                (case get_forward (nodes s) p i of
                   None \<Rightarrow> None
                 | Some nx \<Rightarrow>
                     if nx = Some candidate
                     then (case get_forward (nodes s) candidate i of
                             None \<Rightarrow> None
                           | Some cf \<Rightarrow>
                               (case set_forward (nodes s) p i cf of
                                  None \<Rightarrow> None
                                | Some h' \<Rightarrow>
                                    Delete_unsplice (s\<lparr>nodes := h'\<rparr>) upd candidate (i + 1)))
                     else Some s))
      else Some s)"
  by pat_completeness auto
termination
proof (relation "measure (\<lambda>(s, upd, candidate, i). nat (level s + 1 - i))", goal_cases)
  case 1
  show ?case by simp
next
  case (2 s upd candidate i x2 p nx cf h')
  from 2 have "length (forward (h' (header s))) = length (forward (nodes s (header s)))"
    by (auto simp: set_forward_def assign_def split: if_splits)
  with 2 show ?case by (simp add: level_def)
qed

text \<open>\<^verbatim>\<open>for s.level() > 0 && s.header.forward[s.level()] == nil\<close>: empty top levels go.\<close>

function Delete_shrink :: "('k, 'v) SkipList \<Rightarrow> ('k, 'v) SkipList option" where
  "Delete_shrink s =
     (if level s > 0
      then (case get_forward (nodes s) (header s) (level s) of
              None \<Rightarrow> None
            | Some (Some n) \<Rightarrow> Some s
            | Some None \<Rightarrow>
                (case slice_to (forward (nodes s (header s))) (level s) of
                   None \<Rightarrow> None
                 | Some f \<Rightarrow>
                     Delete_shrink
                       (s\<lparr>nodes := (nodes s)(header s := (nodes s (header s))\<lparr>forward := f\<rparr>)\<rparr>)))
      else Some s)"
  by pat_completeness auto
termination
proof (relation "measure (\<lambda>s. nat (level s))", goal_cases)
  case 1
  show ?case by simp
next
  case (2 s x2 f)
  then show ?case
    by (auto simp: level_def slice_to_def split: if_splits)
qed

definition Delete ::
  "('k, 'v) SkipList \<Rightarrow> 'k option \<Rightarrow> (('k, 'v) SkipList \<times> 'v option \<times> bool) option" where
  "Delete s k =
     (if k = None then Some (s, None, False)
      else
        (case slice_to (update s) (level s + 1) of
           None \<Rightarrow> None
         | Some upd0 \<Rightarrow>
             (case getPath s (header s) (Some upd0) k of
                None \<Rightarrow> None
              | Some (candidate, None) \<Rightarrow> None
              | Some (candidate, Some upd) \<Rightarrow>
                  let s1 = store_update s upd
                  in (case candidate of
                        None \<Rightarrow> Some (s1, None, False)
                      | Some c \<Rightarrow>
                          if key (nodes s1 c) \<noteq> k then Some (s1, None, False)
                          else
                            let previous = backward (nodes s1 c);
                                s2 = (if footer s1 = Some c then s1\<lparr>footer := previous\<rparr> else s1);
                                s3 = (case node_next (nodes s2 c) of
                                        None \<Rightarrow> s2
                                      | Some n \<Rightarrow>
                                          s2\<lparr>nodes := (nodes s2)(n :=
                                               (nodes s2 n)\<lparr>backward := previous\<rparr>)\<rparr>)
                            in (case Delete_unsplice s3 upd c 0 of
                                  None \<Rightarrow> None
                                | Some s4 \<Rightarrow>
                                    (case Delete_shrink s4 of
                                       None \<Rightarrow> None
                                     | Some s5 \<Rightarrow>
                                         Some (s5\<lparr>length_sl := length_sl s5 - 1\<rparr>,
                                               val (nodes s5 c), True)))))))"

section \<open>Construction\<close>

definition NewCustomMap :: "('k option \<Rightarrow> 'k option \<Rightarrow> bool) \<Rightarrow> ('k, 'v) SkipList" where
  "NewCustomMap lt =
     \<lparr>lessThan = lt, header = 0, footer = None, length_sl = 0,
      update = replicate (nat (DefaultMaxLevel + 1)) None,
      nodes = (\<lambda>a. zero_node)(0 := zero_node\<lparr>forward := [None]\<rparr>),
      nalloc = 1\<rparr>"

section \<open>Iterators\<close>

text \<open>
  The \<^verbatim>\<open>list\<close> field of an iterator is the list it was made from: the operations below take
  that list as their first argument.  An operation returns its boolean result and the
  iterator as the call leaves it.
\<close>

definition Key :: "('k, 'v, 'z) iter_scheme \<Rightarrow> 'k option" where
  "Key i = ikey i"

definition Value :: "('k, 'v, 'z) iter_scheme \<Rightarrow> 'v option" where
  "Value i = ivalue i"

definition move_to ::
  "('k, 'v) SkipList \<Rightarrow> ('k, 'v, 'z) iter_scheme \<Rightarrow> addr \<Rightarrow> ('k, 'v, 'z) iter_scheme" where
  "move_to s i c = i\<lparr>current := Some c, ikey := key (nodes s c), ivalue := val (nodes s c)\<rparr>"

definition iter_Next ::
  "('k, 'v) SkipList \<Rightarrow> ('k, 'v, 'z) iter_scheme \<Rightarrow> (bool \<times> ('k, 'v, 'z) iter_scheme) option" where
  "iter_Next s i =
     (case current i of
        None \<Rightarrow> None
      | Some c \<Rightarrow>
          if \<not> hasNext (nodes s c) then Some (False, i)
          else (case node_next (nodes s c) of
                  None \<Rightarrow> None
                | Some n \<Rightarrow> Some (True, move_to s i n)))"

definition iter_Previous ::
  "('k, 'v) SkipList \<Rightarrow> ('k, 'v, 'z) iter_scheme \<Rightarrow> (bool \<times> ('k, 'v, 'z) iter_scheme) option" where
  "iter_Previous s i =
     (case current i of
        None \<Rightarrow> None
      | Some c \<Rightarrow>
          if \<not> hasPrevious (nodes s c) then Some (False, i)
          else (case node_previous (nodes s c) of
                  None \<Rightarrow> None
                | Some n \<Rightarrow> Some (True, move_to s i n)))"

definition iter_Seek ::
  "('k, 'v) SkipList \<Rightarrow> ('k, 'v, 'z) iter_scheme \<Rightarrow> 'k option
     \<Rightarrow> (bool \<times> ('k, 'v, 'z) iter_scheme) option" where
  "iter_Seek s i k =
     (let c0 = (case current i of None \<Rightarrow> header s | Some c \<Rightarrow> c);
          c1 = (if key (nodes s c0) \<noteq> None \<and> lessThan s k (key (nodes s c0))
                then header s else c0);
          c2 = (case backward (nodes s c1) of None \<Rightarrow> header s | Some b \<Rightarrow> b)
      in (case getPath s c2 None k of
            None \<Rightarrow> None
          | Some (None, u) \<Rightarrow> Some (False, i)
          | Some (Some c, u) \<Rightarrow> Some (True, move_to s i c)))"

definition range_Next ::
  "('k, 'v) SkipList \<Rightarrow> ('k, 'v) rangeIterator \<Rightarrow> (bool \<times> ('k, 'v) rangeIterator) option" where
  "range_Next s i =
     (case current i of
        None \<Rightarrow> None
      | Some c \<Rightarrow>
          if \<not> hasNext (nodes s c) then Some (False, i)
          else (case node_next (nodes s c) of
                  None \<Rightarrow> None
                | Some n \<Rightarrow>
                    if \<not> lessThan s (key (nodes s n)) (upperLimit i) then Some (False, i)
                    else Some (True, move_to s i n)))"

definition range_Previous ::
  "('k, 'v) SkipList \<Rightarrow> ('k, 'v) rangeIterator \<Rightarrow> (bool \<times> ('k, 'v) rangeIterator) option" where
  "range_Previous s i =
     (case current i of
        None \<Rightarrow> None
      | Some c \<Rightarrow>
          if \<not> hasPrevious (nodes s c) then Some (False, i)
          else (case node_previous (nodes s c) of
                  None \<Rightarrow> None
                | Some n \<Rightarrow>
                    if lessThan s (key (nodes s n)) (lowerLimit i) then Some (False, i)
                    else Some (True, move_to s i n)))"

definition range_Seek ::
  "('k, 'v) SkipList \<Rightarrow> ('k, 'v) rangeIterator \<Rightarrow> 'k option
     \<Rightarrow> (bool \<times> ('k, 'v) rangeIterator) option" where
  "range_Seek s i k =
     (if lessThan s k (lowerLimit i) then Some (False, i)
      else if \<not> lessThan s k (upperLimit i) then Some (False, i)
      else iter_Seek s i k)"

definition Iterator :: "('k, 'v) SkipList \<Rightarrow> ('k, 'v) iter" where
  "Iterator s = \<lparr>current = Some (header s), ikey = None, ivalue = None\<rparr>"

text \<open>The constructors below return \<open>Some None\<close> for the nil iterator.\<close>

definition iter_at :: "('k, 'v) SkipList \<Rightarrow> addr \<Rightarrow> ('k, 'v) iter" where
  "iter_at s c = \<lparr>current = Some c, ikey = key (nodes s c), ivalue = val (nodes s c)\<rparr>"

definition Seek :: "('k, 'v) SkipList \<Rightarrow> 'k option \<Rightarrow> ('k, 'v) iter option option" where
  "Seek s k =
     (case getPath s (header s) None k of
        None \<Rightarrow> None
      | Some (None, u) \<Rightarrow> Some None
      | Some (Some c, u) \<Rightarrow> Some (Some (iter_at s c)))"

definition SeekToFirst :: "('k, 'v) SkipList \<Rightarrow> ('k, 'v) iter option option" where
  "SeekToFirst s =
     (if length_sl s = 0 then Some None
      else (case node_next (nodes s (header s)) of
              None \<Rightarrow> None
            | Some c \<Rightarrow> Some (Some (iter_at s c))))"

definition SeekToLast :: "('k, 'v) SkipList \<Rightarrow> ('k, 'v) iter option option" where
  "SeekToLast s =
     (case footer s of
        None \<Rightarrow> Some None
      | Some c \<Rightarrow> Some (Some (iter_at s c)))"

text \<open>\<^verbatim>\<open>Range\<close> allocates its synthetic start node: the store grows by one node.\<close>

definition Range ::
  "('k, 'v) SkipList \<Rightarrow> 'k option \<Rightarrow> 'k option
     \<Rightarrow> (('k, 'v) SkipList \<times> ('k, 'v) rangeIterator) option" where
  "Range s from to =
     (case getPath s (header s) None from of
        None \<Rightarrow> None
      | Some (start, u) \<Rightarrow>
          Some (s\<lparr>nodes := (nodes s)(nalloc s :=
                     \<lparr>forward = [start], backward = start, key = None, val = None\<rparr>),
                  nalloc := nalloc s + 1\<rparr>,
                \<lparr>current = Some (nalloc s), ikey = None, ivalue = None,
                 upperLimit = to, lowerLimit = from\<rparr>))"

section \<open>Callers: full traversals and operation sequences\<close>

text \<open>
  The loop \<^verbatim>\<open>for i.Next() { ... i.Key() ... }\<close> of the package documentation, collecting
  the keys it sees, and its mirror image with \<^verbatim>\<open>Previous\<close>.
\<close>

partial_function (option) collect_Next ::
  "('k, 'v) SkipList \<Rightarrow> ('k, 'v) iter \<Rightarrow> 'k option list option" where
  "collect_Next s i =
     Option.bind (iter_Next s i) (\<lambda>(ok, i').
       if ok then Option.bind (collect_Next s i') (\<lambda>ks. Some (Key i' # ks)) else Some [])"

declare collect_Next.simps [code]

partial_function (option) collect_Previous ::
  "('k, 'v) SkipList \<Rightarrow> ('k, 'v) iter \<Rightarrow> 'k option list option" where
  "collect_Previous s i =
     Option.bind (iter_Previous s i) (\<lambda>(ok, i').
       if ok then Option.bind (collect_Previous s i') (\<lambda>ks. Some (Key i' # ks)) else Some [])"

declare collect_Previous.simps [code]

partial_function (option) range_collect_Next ::
  "('k, 'v) SkipList \<Rightarrow> ('k, 'v) rangeIterator \<Rightarrow> 'k option list option" where
  "range_collect_Next s i =
     Option.bind (range_Next s i) (\<lambda>(ok, i').
       if ok then Option.bind (range_collect_Next s i') (\<lambda>ks. Some (Key i' # ks)) else Some [])"

declare range_collect_Next.simps [code]

text \<open>Forward: a fresh \<^verbatim>\<open>Iterator()\<close> run to the end.  Backward: from \<^verbatim>\<open>SeekToLast()\<close>,
  whose first key is the one it stands on.\<close>

definition forward_keys :: "('k, 'v) SkipList \<Rightarrow> 'k option list option" where
  "forward_keys s = collect_Next s (Iterator s)"

definition backward_keys :: "('k, 'v) SkipList \<Rightarrow> 'k option list option" where
  "backward_keys s =
     (case SeekToLast s of
        None \<Rightarrow> None
      | Some None \<Rightarrow> Some []
      | Some (Some i) \<Rightarrow> Option.bind (collect_Previous s i) (\<lambda>ks. Some (Key i # ks)))"

definition range_keys :: "('k, 'v) SkipList \<Rightarrow> 'k option \<Rightarrow> 'k option \<Rightarrow> 'k option list option" where
  "range_keys s from to =
     (case Range s from to of
        None \<Rightarrow> None
      | Some (s', i) \<Rightarrow> range_collect_Next s' i)"

datatype ('k, 'v) op = OpSet "'k option" "'v option" "nat \<Rightarrow> bool" | OpDelete "'k option"

fun run_op :: "('k, 'v) SkipList \<Rightarrow> ('k, 'v) op \<Rightarrow> ('k, 'v) SkipList option" where
  "run_op s (OpSet k v coins) = Set s k v coins"
| "run_op s (OpDelete k) = map_option fst (Delete s k)"

fun run_ops :: "('k, 'v) SkipList \<Rightarrow> ('k, 'v) op list \<Rightarrow> ('k, 'v) SkipList option" where
  "run_ops s [] = Some s"
| "run_ops s (x # xs) = (case run_op s x of None \<Rightarrow> None | Some s' \<Rightarrow> run_ops s' xs)"

section \<open>Abstraction: the list of live nodes\<close>

definition height :: "(addr \<Rightarrow> ('k, 'v) node) \<Rightarrow> addr \<Rightarrow> nat" where
  "height h a = length (forward (h a))"

definition fwd :: "(addr \<Rightarrow> ('k, 'v) node) \<Rightarrow> nat \<Rightarrow> addr \<Rightarrow> addr option" where
  "fwd h i a = forward (h a) ! i"

fun chainf :: "(addr \<Rightarrow> addr option) \<Rightarrow> addr list \<Rightarrow> bool" where
  "chainf f [] = True"
| "chainf f [x] = (f x = None)"
| "chainf f (x # y # r) = (f x = Some y \<and> chainf f (y # r))"

fun backf :: "(addr \<Rightarrow> addr option) \<Rightarrow> addr option \<Rightarrow> addr list \<Rightarrow> bool" where
  "backf b p [] = True"
| "backf b p (x # r) = (b x = p \<and> backf b (Some x) r)"

definition tower :: "(addr \<Rightarrow> ('k, 'v) node) \<Rightarrow> nat \<Rightarrow> addr list \<Rightarrow> addr list" where
  "tower h i ns = filter (\<lambda>a. i < height h a) ns"

definition strict_total_order :: "('k option \<Rightarrow> 'k option \<Rightarrow> bool) \<Rightarrow> bool" where
  "strict_total_order lt \<longleftrightarrow>
     (\<forall>a. \<not> lt (Some a) (Some a)) \<and>
     (\<forall>a b c. lt (Some a) (Some b) \<longrightarrow> lt (Some b) (Some c) \<longrightarrow> lt (Some a) (Some c)) \<and>
     (\<forall>a b. a \<noteq> b \<longrightarrow> lt (Some a) (Some b) \<or> lt (Some b) (Some a))"

definition key_lt :: "('k, 'v) SkipList \<Rightarrow> 'k option \<Rightarrow> addr \<Rightarrow> bool" where
  "key_lt s t a = lessThan s (key (nodes s a)) t"

definition wf_skiplist :: "('k, 'v) SkipList \<Rightarrow> addr list \<Rightarrow> bool" where
  "wf_skiplist s ns \<longleftrightarrow>
     distinct (header s # ns) \<and>
     (\<forall>a\<in>set (header s # ns). a < nalloc s) \<and>
     key (nodes s (header s)) = None \<and> backward (nodes s (header s)) = None \<and>
     0 < height (nodes s) (header s) \<and>
     height (nodes s) (header s) \<le> length (update s) \<and>
     length (update s) = nat (DefaultMaxLevel + 1) \<and>
     (\<forall>a\<in>set ns. key (nodes s a) \<noteq> None \<and> 0 < height (nodes s) a \<and>
                 height (nodes s) a \<le> height (nodes s) (header s)) \<and>
     sorted_wrt (\<lambda>a b. lessThan s (key (nodes s a)) (key (nodes s b))) ns \<and>
     (\<forall>i < height (nodes s) (header s).
         chainf (fwd (nodes s) i) (header s # tower (nodes s) i ns)) \<and>
     backf (\<lambda>a. backward (nodes s a)) None ns \<and>
     footer s = (if ns = [] then None else Some (last ns)) \<and>
     length_sl s = int (length ns)"

definition pr :: "(addr \<Rightarrow> ('k, 'v) node) \<Rightarrow> addr \<Rightarrow> addr list \<Rightarrow> nat \<Rightarrow> addr" where
  "pr h a pre j = last (a # tower h j pre)"

definition grown :: "('k, 'v) SkipList \<Rightarrow> nat \<Rightarrow> ('k, 'v) SkipList" where
  "grown s m = s\<lparr>nodes := (nodes s)(header s :=
      (nodes s (header s))\<lparr>forward := forward (nodes s (header s)) @ replicate m None\<rparr>)\<rparr>"

definition spliced ::
  "(addr \<Rightarrow> ('k, 'v) node) \<Rightarrow> addr option list \<Rightarrow> addr \<Rightarrow> nat \<Rightarrow> (addr \<Rightarrow> ('k, 'v) node)" where
  "spliced h upd n m =
     (\<lambda>x. (h x)\<lparr>forward := map (\<lambda>j. if j < m
                                      then (if x = n then fwd h j (the (upd ! j))
                                            else if upd ! j = Some x then Some n else fwd h j x)
                                      else fwd h j x) [0..<height h x]\<rparr>)"

text \<open>The stored entries in list order, as an association list.\<close>

definition contents :: "('k, 'v) SkipList \<Rightarrow> addr list \<Rightarrow> ('k option \<times> 'v option) list" where
  "contents s ns = map (\<lambda>a. (key (nodes s a), val (nodes s a))) ns"

definition keys_of :: "('k, 'v) SkipList \<Rightarrow> addr list \<Rightarrow> 'k option list" where
  "keys_of s ns = map (\<lambda>a. key (nodes s a)) ns"

definition unspliced ::
  "(addr \<Rightarrow> ('k, 'v) node) \<Rightarrow> addr option list \<Rightarrow> addr \<Rightarrow> nat \<Rightarrow> (addr \<Rightarrow> ('k, 'v) node)" where
  "unspliced h upd c m =
     (\<lambda>x. (h x)\<lparr>forward := map (\<lambda>j. if j < m \<and> upd ! j = Some x then fwd h j c else fwd h j x)
                                [0..<height h x]\<rparr>)"

text \<open>
  The reference model of an operation sequence: a finite map from (non-nil) keys to values.
  A nil key changes nothing.
\<close>

fun model_op :: "('k \<rightharpoonup> 'v option) \<Rightarrow> ('k, 'v) op \<Rightarrow> ('k \<rightharpoonup> 'v option)" where
  "model_op m (OpSet None v c) = m"
| "model_op m (OpSet (Some k) v c) = m(k \<mapsto> v)"
| "model_op m (OpDelete None) = m"
| "model_op m (OpDelete (Some k)) = m(k := None)"

definition model :: "('k, 'v) op list \<Rightarrow> ('k \<rightharpoonup> 'v option)" where
  "model ops = foldl model_op Map.empty ops"

text \<open>The entries of a list, as a map.\<close>

definition abs_map :: "('k, 'v) SkipList \<Rightarrow> addr list \<Rightarrow> ('k \<rightharpoonup> 'v option)" where
  "abs_map s ns = (\<lambda>k. map_of (contents s ns) (Some k))"

text \<open>
  The comparison of \<^verbatim>\<open>NewIntMap\<close>, \<^verbatim>\<open>l.(int) < r.(int)\<close>.  The type assertions panic on a
  nil operand; the statements below never pass one, and the model answers \<open>False\<close> there.
\<close>

definition int_lessThan :: "int option \<Rightarrow> int option \<Rightarrow> bool" where
  "int_lessThan l r =
     (case l of None \<Rightarrow> False | Some x \<Rightarrow> (case r of None \<Rightarrow> False | Some y \<Rightarrow> x < y))"

definition NewIntMap :: "(int, 'v) SkipList" where
  "NewIntMap = NewCustomMap int_lessThan"

definition tails :: "nat \<Rightarrow> bool" where
  "tails n = False"

text \<open>A sequence of \<^verbatim>\<open>Set\<close> calls with non-nil keys, each with the coin flips of its level
  draw, and the value of the most recent \<^verbatim>\<open>Set\<close> of a key in it.\<close>

definition set_ops :: "('k \<times> 'v option \<times> (nat \<Rightarrow> bool)) list \<Rightarrow> ('k, 'v) op list" where
  "set_ops kvs = map (\<lambda>(k, v, c). OpSet (Some k) v c) kvs"

definition last_set :: "('k \<times> 'v option \<times> (nat \<Rightarrow> bool)) list \<Rightarrow> ('k \<rightharpoonup> 'v option)" where
  "last_set kvs = map_of (rev (map (\<lambda>(k, v, c). (k, v)) kvs))"

text \<open>The scenario of the specification: keys 3, 1, 4, 1, 5, 9 with value = key, the second
  \<^verbatim>\<open>Set\<close> of 1 with another value.\<close>

definition heads :: "nat \<Rightarrow> nat \<Rightarrow> bool" where
  "heads m n = (n < m)"

definition scenario :: "(int \<times> int option \<times> (nat \<Rightarrow> bool)) list" where
  "scenario = [(3, Some 3, heads 1), (1, Some 1, tails), (4, Some 4, heads 2),
               (1, Some 10, tails), (5, Some 5, tails), (9, Some 9, heads 1)]"

lemma index_int [simp]:
  "index xs (int i) = (if i < length xs then Some (xs ! i) else None)"
  by (simp add: index_def)

lemma assign_int [simp]:
  "assign xs (int i) v = (if i < length xs then Some (xs[i := v]) else None)"
  by (simp add: assign_def)

lemma get_forward_int [simp]:
  "get_forward h a (int i) = (if i < height h a then Some (fwd h i a) else None)"
  by (simp add: get_forward_def height_def fwd_def)

lemma set_forward_int [simp]:
  "set_forward h a (int i) v =
     (if i < height h a then Some (h(a := (h a)\<lparr>forward := (forward (h a))[i := v]\<rparr>)) else None)"
  by (simp add: set_forward_def height_def)

lemma chainf_cong: "(\<And>x. x \<in> set xs \<Longrightarrow> f x = g x) \<Longrightarrow> chainf f xs = chainf g xs"
  by (induction f xs rule: chainf.induct) auto

lemma chainf_suffix: "chainf f (A @ x # B) \<Longrightarrow> chainf f (x # B)"
  by (induction f A rule: chainf.induct) auto

lemma chainf_next:
  "chainf f (A @ x # B) \<Longrightarrow> f x = (case B of [] \<Rightarrow> None | b # r \<Rightarrow> Some b)"
  by (drule chainf_suffix) (cases B; simp)

lemma chainf_prefix:
  "chainf f (A @ p # B) \<Longrightarrow> (\<And>x. x \<in> set A \<Longrightarrow> g x = f x) \<Longrightarrow> chainf g (p # B')
     \<Longrightarrow> chainf g (A @ p # B')"
proof (induction A)
  case Nil
  then show ?case by simp
next
  case (Cons a A)
  then show ?case by (cases A) auto
qed

lemma chainf_insert:
  assumes "chainf f (A @ p # B)"
    and "distinct (A @ p # B)" and "n \<notin> set (A @ p # B)"
    and "\<And>x. x \<in> set (A @ p # B) \<Longrightarrow> x \<noteq> p \<Longrightarrow> g x = f x"
    and "g p = Some n" and "g n = f p"
  shows "chainf g (A @ p # n # B)"
proof -
  from assms(1) have c: "chainf f (p # B)" by (rule chainf_suffix)
  have "\<And>x. x \<in> set B \<Longrightarrow> g x = f x"
    using assms(2,4) by auto
  then have gB: "chainf g B = chainf f B" by (rule chainf_cong)
  have "chainf g (n # B)"
    using c gB assms(6) by (cases B) auto
  then have g1: "chainf g (p # n # B)"
    using assms(5) by simp
  have g2: "\<And>x. x \<in> set A \<Longrightarrow> g x = f x"
    using assms(2,4) by auto
  show ?thesis
    by (rule chainf_prefix[OF assms(1) g2 g1])
qed

lemma chainf_remove:
  assumes "chainf f (A @ p # c # B)"
    and "distinct (A @ p # c # B)"
    and "\<And>x. x \<in> set (A @ p # B) \<Longrightarrow> x \<noteq> p \<Longrightarrow> g x = f x"
    and "g p = f c"
  shows "chainf g (A @ p # B)"
proof -
  from assms(1) have c: "chainf f (p # c # B)" by (rule chainf_suffix)
  have "\<And>x. x \<in> set B \<Longrightarrow> g x = f x"
    using assms(2,3) by auto
  then have gB: "chainf g B = chainf f B" by (rule chainf_cong)
  have g1: "chainf g (p # B)"
    using c gB assms(4) by (cases B) auto
  have g2: "\<And>x. x \<in> set A \<Longrightarrow> g x = f x"
    using assms(2,3) by auto
  show ?thesis
    by (rule chainf_prefix[OF assms(1) g2 g1])
qed

lemma backf_cong: "(\<And>x. x \<in> set xs \<Longrightarrow> b x = b' x) \<Longrightarrow> backf b p xs = backf b' p xs"
  by (induction xs arbitrary: p) auto

lemma backf_append:
  "backf b p (A @ B) \<longleftrightarrow> backf b p A \<and> backf b (if A = [] then p else Some (last A)) B"
  by (induction A arbitrary: p) auto

lemma tower_append [simp]: "tower h i (xs @ ys) = tower h i xs @ tower h i ys"
  by (simp add: tower_def)

lemma tower_Cons: "tower h i (x # xs) = (if i < height h x then x # tower h i xs else tower h i xs)"
  by (simp add: tower_def)

lemma tower_Nil [simp]: "tower h i [] = []"
  by (simp add: tower_def)

lemma set_tower: "set (tower h i xs) = {x \<in> set xs. i < height h x}"
  by (simp add: tower_def)

lemma tower_0: "\<forall>x\<in>set xs. 0 < height h x \<Longrightarrow> tower h 0 xs = xs"
  by (simp add: tower_def)

lemma getPath_advance_chain:
  assumes "chainf (fwd (nodes s) i) (c # A @ B)"
    and "\<forall>x\<in>set A. lessThan s (key (nodes s x)) t"
    and "B \<noteq> [] \<longrightarrow> \<not> lessThan s (key (nodes s (hd B))) t"
    and "\<forall>x\<in>set (c # A @ B). i < height (nodes s) x"
  shows "getPath_advance s (int i) c t = Some (last (c # A))"
  using assms
proof (induction A arbitrary: c)
  case Nil
  then show ?case
    by (cases B) (auto simp: getPath_advance.simps[of s "int i" c])
next
  case (Cons a A)
  from Cons.prems have "getPath_advance s (int i) a t = Some (last (a # A))"
    by (intro Cons.IH) auto
  with Cons.prems show ?case
    by (auto simp: getPath_advance.simps[of s "int i" c])
qed

lemma tower_last_split:
  assumes "tower h i pre \<noteq> []"
  obtains p1 p2 where "pre = p1 @ last (tower h i pre) # p2"
    and "i < height h (last (tower h i pre))" and "tower h i p2 = []"
proof -
  from assms have "\<exists>x\<in>set pre. i < height h x"
    by (auto simp: tower_def filter_empty_conv)
  then obtain p1 x p2 where s: "pre = p1 @ x # p2" "i < height h x" "\<forall>z\<in>set p2. \<not> i < height h z"
    by (auto dest!: split_list_last_prop)
  then have e: "tower h i p2 = []" by (simp add: tower_def)
  with s have l: "last (tower h i pre) = x" by (simp add: tower_Cons)
  show thesis
  proof (rule that[of p1 p2])
    show "pre = p1 @ last (tower h i pre) # p2" unfolding l by (rule s(1))
    show "i < height h (last (tower h i pre))" unfolding l by (rule s(2))
    show "tower h i p2 = []" by (rule e)
  qed
qed

lemma last_tower_split:
  "j < height h c' \<Longrightarrow> last (c # tower h j (p1 @ c' # p2)) = last (c' # tower h j p2)"
  by (simp add: tower_Cons)

lemma getPath_levels_path:
  assumes "\<forall>j<n. chainf (fwd (nodes s) j) (c # tower (nodes s) j (pre @ post))"
    and "n \<le> height (nodes s) c"
    and "\<forall>x\<in>set pre. lessThan s (key (nodes s x)) t"
    and "\<forall>x\<in>set post. \<not> lessThan s (key (nodes s x)) t"
    and "case upd of None \<Rightarrow> True | Some u \<Rightarrow> n \<le> length u"
  shows "getPath_levels s n c upd t =
           Some (if n = 0 then c else last (c # tower (nodes s) 0 pre),
                 map_option (\<lambda>u. map (\<lambda>j. if j < n then Some (last (c # tower (nodes s) j pre))
                                             else u ! j) [0..<length u]) upd)"
  using assms
proof (induction n arbitrary: c pre upd)
  case 0
  then show ?case
    by (cases upd) (simp_all add: map_nth)
next
  case (Suc i)
  let ?h = "nodes s"
  define c' where "c' = last (c # tower ?h i pre)"
  have adv: "getPath_advance s (int i) c t = Some c'"
    unfolding c'_def
  proof (rule getPath_advance_chain[where B = "tower ?h i post"])
    show "chainf (fwd ?h i) (c # tower ?h i pre @ tower ?h i post)"
      using Suc.prems(1) by simp
    show "\<forall>x\<in>set (tower ?h i pre). lessThan s (key (?h x)) t"
      using Suc.prems(3) by (simp add: set_tower)
    show "tower ?h i post \<noteq> [] \<longrightarrow> \<not> lessThan s (key (?h (hd (tower ?h i post)))) t"
    proof
      assume "tower ?h i post \<noteq> []"
      then have "hd (tower ?h i post) \<in> set post"
        using hd_in_set[of "tower ?h i post"] by (simp add: set_tower)
      with Suc.prems(4) show "\<not> lessThan s (key (?h (hd (tower ?h i post)))) t" by blast
    qed
    show "\<forall>x\<in>set (c # tower ?h i pre @ tower ?h i post). i < height ?h x"
      using Suc.prems(2) by (auto simp: set_tower)
  qed
  define upd' where "upd' = map_option (\<lambda>u. u[i := Some c']) upd"
  have step: "getPath_levels s (Suc i) c upd t = getPath_levels s i c' upd' t"
    using adv Suc.prems(5) by (cases upd) (simp_all add: upd'_def)
  have len': "case upd' of None \<Rightarrow> True | Some u \<Rightarrow> i \<le> length u"
    using Suc.prems(5) by (cases upd) (simp_all add: upd'_def)
  obtain p2 where p2:
    "\<forall>j<i. chainf (fwd ?h j) (c' # tower ?h j (p2 @ post))"
    "i \<le> height ?h c'"
    "\<forall>x\<in>set p2. lessThan s (key (?h x)) t"
    "\<forall>j\<le>i. last (c # tower ?h j pre) = last (c' # tower ?h j p2)"
  proof (cases "tower ?h i pre = []")
    case True
    then have "c' = c" by (simp add: c'_def)
    moreover have "\<forall>j\<le>i. last (c # tower ?h j pre) = last (c # tower ?h j pre)" by simp
    ultimately show ?thesis
      using Suc.prems(1,2,3) that[of pre] by auto
  next
    case False
    then obtain p1 q where s: "pre = p1 @ last (tower ?h i pre) # q"
      and hc: "i < height ?h (last (tower ?h i pre))" and "tower ?h i q = []"
      by (rule tower_last_split)
    from False have c'l: "c' = last (tower ?h i pre)" by (simp add: c'_def)
    have pre: "pre = p1 @ c' # q" using s c'l by simp
    have "\<forall>j<i. chainf (fwd ?h j) (c' # tower ?h j (q @ post))"
    proof (intro allI impI)
      fix j assume j: "j < i"
      then have "chainf (fwd ?h j) (c # tower ?h j (pre @ post))"
        using Suc.prems(1) by simp
      moreover have "c # tower ?h j (pre @ post) = (c # tower ?h j p1) @ c' # tower ?h j (q @ post)"
        using j hc c'l by (subst pre) (simp add: tower_Cons)
      ultimately show "chainf (fwd ?h j) (c' # tower ?h j (q @ post))"
        by (metis chainf_suffix)
    qed
    moreover have "i \<le> height ?h c'" using hc c'l by simp
    moreover have "\<forall>x\<in>set q. lessThan s (key (?h x)) t"
      using Suc.prems(3) by (subst (asm) pre) simp
    moreover have "\<forall>j\<le>i. last (c # tower ?h j pre) = last (c' # tower ?h j q)"
    proof (intro allI impI)
      fix j assume "j \<le> i"
      then have "j < height ?h c'" using hc c'l by simp
      then show "last (c # tower ?h j pre) = last (c' # tower ?h j q)"
        by (subst pre) (rule last_tower_split)
    qed
    ultimately show ?thesis using that[of q] by blast
  qed
  have IH: "getPath_levels s i c' upd' t =
           Some (if i = 0 then c' else last (c' # tower ?h 0 p2),
                 map_option (\<lambda>u. map (\<lambda>j. if j < i then Some (last (c' # tower ?h j p2))
                                             else u ! j) [0..<length u]) upd')"
    by (rule Suc.IH[OF p2(1) p2(2) p2(3) Suc.prems(4) len'])
  have cur: "(if i = 0 then c' else last (c' # tower ?h 0 p2)) = last (c # tower ?h 0 pre)"
    using p2(4) by (auto simp: c'_def)
  have u: "map_option (\<lambda>u. map (\<lambda>j. if j < i then Some (last (c' # tower ?h j p2))
                                             else u ! j) [0..<length u]) upd'
         = map_option (\<lambda>u. map (\<lambda>j. if j < Suc i then Some (last (c # tower ?h j pre))
                                             else u ! j) [0..<length u]) upd"
  proof (cases upd)
    case None
    then show ?thesis by (simp add: upd'_def)
  next
    case (Some u)
    have "map (\<lambda>j. if j < i then Some (last (c' # tower ?h j p2)) else u[i := Some c'] ! j) [0..<length u]
        = map (\<lambda>j. if j < Suc i then Some (last (c # tower ?h j pre)) else u ! j) [0..<length u]"
    proof (rule map_cong[OF refl])
      fix j assume "j \<in> set [0..<length u]"
      then have jl: "j < length u" by simp
      show "(if j < i then Some (last (c' # tower ?h j p2)) else u[i := Some c'] ! j)
          = (if j < Suc i then Some (last (c # tower ?h j pre)) else u ! j)"
        using p2(4) jl by (auto simp: c'_def less_Suc_eq nth_list_update)
    qed
    then show ?thesis using Some by (simp add: upd'_def)
  qed
  show ?case
    unfolding step IH cur u by simp
qed

lemma wf_chain_from:
  assumes "wf_skiplist s ns" and "header s # ns = xs @ c # ys" and "j < height (nodes s) c"
  shows "chainf (fwd (nodes s) j) (c # tower (nodes s) j ys)"
proof -
  have hc: "height (nodes s) c \<le> height (nodes s) (header s)"
  proof (cases xs)
    case Nil
    with assms(2) show ?thesis by simp
  next
    case (Cons a as)
    with assms(2) have "c \<in> set ns" by auto
    with assms(1) show ?thesis by (simp add: wf_skiplist_def)
  qed
  with assms(1,3) have "chainf (fwd (nodes s) j) (header s # tower (nodes s) j ns)"
    by (simp add: wf_skiplist_def)
  moreover have "\<exists>zs. header s # tower (nodes s) j ns = zs @ c # tower (nodes s) j ys"
  proof (cases xs)
    case Nil
    with assms(2) show ?thesis by simp
  next
    case (Cons a as)
    with assms(2) have "ns = as @ c # ys" by simp
    with assms(3) have "header s # tower (nodes s) j ns
         = (header s # tower (nodes s) j as) @ c # tower (nodes s) j ys"
      by (simp add: tower_Cons)
    then show ?thesis by blast
  qed
  ultimately show ?thesis
    by (metis chainf_suffix)
qed

lemma wf_height_pos:
  "wf_skiplist s ns \<Longrightarrow> a \<in> set (header s # ns) \<Longrightarrow> 0 < height (nodes s) a"
  by (auto simp: wf_skiplist_def)

lemma wf_key_Some:
  "wf_skiplist s ns \<Longrightarrow> a \<in> set ns \<Longrightarrow> \<exists>k. key (nodes s a) = Some k"
  by (auto simp: wf_skiplist_def)

lemma sorted_dropWhile_not:
  assumes "strict_total_order (lessThan s)"
    and "sorted_wrt (\<lambda>a b. lessThan s (key (nodes s a)) (key (nodes s b))) ys"
    and "\<forall>a\<in>set ys. key (nodes s a) \<noteq> None"
  shows "\<forall>x\<in>set (dropWhile (key_lt s (Some k)) ys). \<not> key_lt s (Some k) x"
proof (cases "dropWhile (key_lt s (Some k)) ys")
  case Nil
  show ?thesis unfolding Nil by simp
next
  case (Cons d r)
  then have nd: "\<not> key_lt s (Some k) d"
    by (metis hd_dropWhile list.distinct(1) list.sel(1))
  have "ys = takeWhile (key_lt s (Some k)) ys @ d # r"
    using Cons by (metis takeWhile_dropWhile_id)
  with assms(2) have "sorted_wrt (\<lambda>a b. lessThan s (key (nodes s a)) (key (nodes s b))) (d # r)"
    by (metis sorted_wrt_append)
  then have dr: "\<forall>x\<in>set r. lessThan s (key (nodes s d)) (key (nodes s x))" by simp
  have mem: "set (d # r) \<subseteq> set ys"
    using Cons by (metis set_dropWhileD subsetI)
  show ?thesis
    unfolding Cons
  proof
    fix x assume x: "x \<in> set (d # r)"
    show "\<not> key_lt s (Some k) x"
    proof (cases "x = d")
      case True
      with nd show ?thesis by simp
    next
      case False
      with x dr have lt: "lessThan s (key (nodes s d)) (key (nodes s x))" by auto
      from mem x assms(3) obtain kx where kx: "key (nodes s x) = Some kx" by auto
      from mem assms(3) obtain kd where kd: "key (nodes s d) = Some kd" by auto
      show ?thesis
      proof
        assume "key_lt s (Some k) x"
        with lt kx kd assms(1) have "lessThan s (Some kd) (Some k)"
          unfolding key_lt_def strict_total_order_def by metis
        with nd kd show False by (simp add: key_lt_def)
      qed
    qed
  qed
qed

text \<open>The result of the path search from a node of the list.\<close>

lemma getPath_from:
  assumes wf: "wf_skiplist s ns" and ord: "strict_total_order (lessThan s)"
    and split: "header s # ns = xs @ c # ys"
    and len: "case upd of None \<Rightarrow> True | Some u \<Rightarrow> height (nodes s) c \<le> length u"
  shows "getPath s c upd (Some k) =
           Some (case dropWhile (key_lt s (Some k)) ys of [] \<Rightarrow> None | a # r \<Rightarrow> Some a,
                 map_option (\<lambda>u. map (\<lambda>j. if j < height (nodes s) c
                     then Some (last (c # tower (nodes s) j (takeWhile (key_lt s (Some k)) ys)))
                     else u ! j) [0..<length u]) upd)"
proof -
  let ?h = "nodes s"
  let ?Q = "key_lt s (Some k)"
  let ?pre = "takeWhile ?Q ys" and ?post = "dropWhile ?Q ys"
  have ysub: "set ys \<subseteq> set ns" using split by (cases xs) auto
  have ys_sorted: "sorted_wrt (\<lambda>a b. lessThan s (key (?h a)) (key (?h b))) ys"
  proof (cases xs)
    case Nil
    with split wf show ?thesis by (simp add: wf_skiplist_def)
  next
    case (Cons a as)
    with split have "ns = as @ c # ys" by simp
    with wf show ?thesis by (simp add: wf_skiplist_def sorted_wrt_append)
  qed
  have keys: "\<forall>a\<in>set ys. key (?h a) \<noteq> None"
    using ysub wf by (auto simp: wf_skiplist_def)
  have cin: "c \<in> set (header s # ns)" using split by (metis in_set_conv_decomp)
  have hpos: "0 < height ?h c" using wf cin by (rule wf_height_pos)
  have pos: "\<forall>x\<in>set ys. 0 < height ?h x"
    using ysub wf by (auto simp: wf_skiplist_def)
  have lv: "getPath_levels s (height ?h c) c upd (Some k) =
           Some (if height ?h c = 0 then c else last (c # tower ?h 0 ?pre),
                 map_option (\<lambda>u. map (\<lambda>j. if j < height ?h c then Some (last (c # tower ?h j ?pre))
                                             else u ! j) [0..<length u]) upd)"
  proof (rule getPath_levels_path[where post = ?post])
    show "\<forall>j<height ?h c. chainf (fwd ?h j) (c # tower ?h j (?pre @ ?post))"
      using wf_chain_from[OF wf split] by simp
    show "height ?h c \<le> height ?h c" by simp
    show "\<forall>x\<in>set ?pre. lessThan s (key (?h x)) (Some k)"
      by (auto dest: set_takeWhileD simp: key_lt_def)
    show "\<forall>x\<in>set ?post. \<not> lessThan s (key (?h x)) (Some k)"
      using sorted_dropWhile_not[OF ord ys_sorted keys, of k] by (simp add: key_lt_def)
    show "case upd of None \<Rightarrow> True | Some u \<Rightarrow> height ?h c \<le> length u" by (rule len)
  qed
  have t0: "tower ?h 0 ?pre = ?pre"
    using pos by (intro tower_0) (auto dest: set_takeWhileD)
  have c0: "chainf (fwd ?h 0) (c # ys)"
    using wf_chain_from[OF wf split hpos] pos by (simp add: tower_0)
  define cl where "cl = last (c # ?pre)"
  have bl: "butlast (c # ?pre) @ [cl] = c # ?pre"
    unfolding cl_def by (rule append_butlast_last_id) simp
  have "butlast (c # ?pre) @ cl # ?post = (butlast (c # ?pre) @ [cl]) @ ?post"
    by simp
  also have "\<dots> = c # ys" unfolding bl by simp
  finally have "chainf (fwd ?h 0) (butlast (c # ?pre) @ cl # ?post)"
    using c0 by simp
  then have nx: "fwd ?h 0 cl = (case ?post of [] \<Rightarrow> None | b # r \<Rightarrow> Some b)"
    by (rule chainf_next)
  have "cl \<in> set (c # ?pre)"
    unfolding cl_def by (rule last_in_set) simp
  then have "cl \<in> set (c # ys)"
    by (auto dest: set_takeWhileD)
  then have "0 < height ?h cl"
    using hpos pos by auto
  then have nn: "node_next (?h cl) = fwd ?h 0 cl"
    by (simp add: node_next_def fwd_def height_def)
  have lv': "getPath_levels s (height ?h c) c upd (Some k) =
           Some (cl,
                 map_option (\<lambda>u. map (\<lambda>j. if j < height ?h c then Some (last (c # tower ?h j ?pre))
                                             else u ! j) [0..<length u]) upd)"
    unfolding lv cl_def t0 using hpos by simp
  show ?thesis
    unfolding getPath_def height_def[symmetric] lv' by (simp add: nn nx)
qed

lemma sorted_wrt_cong_set:
  "(\<And>x y. x \<in> set xs \<Longrightarrow> y \<in> set xs \<Longrightarrow> R x y = R' x y) \<Longrightarrow> sorted_wrt R xs = sorted_wrt R' xs"
  by (induction xs) auto

lemma tower_cong: "(\<And>x. x \<in> set xs \<Longrightarrow> height h' x = height h x) \<Longrightarrow> tower h' i xs = tower h i xs"
  by (auto simp: tower_def intro: filter_cong)

lemma pr_in: "pr h a pre j \<in> set (a # tower h j pre)"
  unfolding pr_def by (rule last_in_set) simp

lemma pr_height:
  "j < height h a \<Longrightarrow> j < height h (pr h a pre j)"
  using pr_in[of h a pre j] by (auto simp: set_tower)

lemma pr_split:
  "a # tower h j pre = butlast (a # tower h j pre) @ [pr h a pre j]"
  unfolding pr_def by (rule append_butlast_last_id[symmetric]) simp

lemma insert_wf:
  fixes s s' :: "('k, 'v) SkipList"
  assumes wf: "wf_skiplist s (pre @ post)"
    and kp: "\<forall>x\<in>set pre. lessThan s (key (nodes s x)) (Some k)"
    and kq: "\<forall>x\<in>set post. lessThan s (Some k) (key (nodes s x))"
    and n: "n = nalloc s"
    and L: "L < height (nodes s) (header s)"
    and hdr: "header s' = header s" and lt: "lessThan s' = lessThan s"
    and upd: "length (update s') = length (update s)"
    and na: "nalloc s' = Suc n"
    and ft: "footer s' = Some (if post = [] then n else last post)"
    and ln: "length_sl s' = length_sl s + 1"
    and K: "\<And>x. x \<noteq> n \<Longrightarrow> key (nodes s' x) = key (nodes s x)" "key (nodes s' n) = Some k"
    and Ht: "\<And>x. x \<noteq> n \<Longrightarrow> height (nodes s') x = height (nodes s) x"
            "height (nodes s') n = Suc L"
    and B1: "backward (nodes s' n) = (if pre = [] then None else Some (last pre))"
    and B2: "\<And>x. x \<noteq> n \<Longrightarrow> backward (nodes s' x) =
                (if post \<noteq> [] \<and> x = hd post then Some n else backward (nodes s x))"
    and F1: "\<And>j. j \<le> L \<Longrightarrow> fwd (nodes s') j (pr (nodes s) (header s) pre j) = Some n"
    and F2: "\<And>j. j \<le> L \<Longrightarrow> fwd (nodes s') j n = fwd (nodes s) j (pr (nodes s) (header s) pre j)"
    and F3: "\<And>x j. x \<noteq> n \<Longrightarrow> j < height (nodes s) x
                \<Longrightarrow> (j \<le> L \<longrightarrow> x \<noteq> pr (nodes s) (header s) pre j)
                \<Longrightarrow> fwd (nodes s') j x = fwd (nodes s) j x"
  shows "wf_skiplist s' (pre @ n # post)"
proof -
  let ?h = "nodes s" and ?h' = "nodes s'" and ?hd = "header s"
  let ?ns = "pre @ post"
  from wf have dist: "distinct (?hd # ?ns)" and bound: "\<forall>a\<in>set (?hd # ?ns). a < nalloc s"
    and hk: "key (?h ?hd) = None" and hb: "backward (?h ?hd) = None"
    and hh: "0 < height ?h ?hd" "height ?h ?hd \<le> length (update s)"
    and ul: "length (update s) = nat (DefaultMaxLevel + 1)"
    and nk: "\<forall>a\<in>set ?ns. key (?h a) \<noteq> None \<and> 0 < height ?h a \<and> height ?h a \<le> height ?h ?hd"
    and srt: "sorted_wrt (\<lambda>a b. lessThan s (key (?h a)) (key (?h b))) ?ns"
    and ch: "\<forall>i < height ?h ?hd. chainf (fwd ?h i) (?hd # tower ?h i ?ns)"
    and bk: "backf (\<lambda>a. backward (?h a)) None ?ns"
    and len: "length_sl s = int (length ?ns)"
    by (simp_all add: wf_skiplist_def)
  have fresh: "n \<notin> set (?hd # ?ns)" using bound n by auto
  then have nhd: "?hd \<noteq> n" and npre: "\<And>x. x \<in> set pre \<Longrightarrow> x \<noteq> n"
    and npost: "\<And>x. x \<in> set post \<Longrightarrow> x \<noteq> n" by auto
  have old_n: "x \<noteq> n" if "x \<in> set (?hd # ?ns)" for x
    using that fresh by auto
  have Kold: "key (?h' x) = key (?h x)" if "x \<in> set ?ns" for x
    using that by (intro K(1) old_n) simp
  have Hold: "height ?h' x = height ?h x" if "x \<in> set (?hd # ?ns)" for x
    using that by (intro Ht(1) old_n)
  have Bold: "backward (?h' x) = backward (?h x)"
    if "x \<in> set (?hd # ?ns)" "post = [] \<or> x \<noteq> hd post" for x
    using B2[OF old_n[OF that(1)]] that(2) by auto
  have tw: "tower ?h' j xs = tower ?h j xs" if "set xs \<subseteq> set ?ns" for j xs
  proof (rule tower_cong)
    fix x assume "x \<in> set xs"
    with that have "x \<in> set (?hd # ?ns)" by auto
    then show "height ?h' x = height ?h x" by (rule Hold)
  qed
  have c1: "distinct (header s' # pre @ n # post)"
    using dist fresh by (auto simp: hdr)
  have c2: "\<forall>a\<in>set (header s' # pre @ n # post). a < nalloc s'"
    using bound n by (auto simp: hdr na less_Suc_eq)
  have c3: "key (?h' (header s')) = None"
    using hk nhd by (simp add: hdr K(1))
  have "post = [] \<or> ?hd \<noteq> hd post"
    using dist by (cases post) auto
  then have "backward (?h' ?hd) = backward (?h ?hd)"
    by (intro Bold) auto
  then have c4: "backward (?h' (header s')) = None"
    using hb by (simp add: hdr)
  have c5: "0 < height ?h' (header s')" "height ?h' (header s') \<le> length (update s')"
       "length (update s') = nat (DefaultMaxLevel + 1)"
    using hh ul nhd by (simp_all add: hdr Ht(1) upd)
  have c6: "\<forall>a\<in>set (pre @ n # post). key (?h' a) \<noteq> None \<and> 0 < height ?h' a \<and>
                 height ?h' a \<le> height ?h' (header s')"
  proof
    fix a assume a: "a \<in> set (pre @ n # post)"
    show "key (?h' a) \<noteq> None \<and> 0 < height ?h' a \<and> height ?h' a \<le> height ?h' (header s')"
    proof (cases "a = n")
      case True
      then show ?thesis using L nhd by (simp add: K(2) Ht hdr)
    next
      case False
      with a have "a \<in> set ?ns" by auto
      with nk False nhd show ?thesis by (simp add: K(1) Ht(1) hdr)
    qed
  qed
  have c7: "sorted_wrt (\<lambda>a b. lessThan s' (key (?h' a)) (key (?h' b))) (pre @ n # post)"
  proof -
    have "sorted_wrt (\<lambda>a b. lessThan s' (key (?h' a)) (key (?h' b))) xs
        = sorted_wrt (\<lambda>a b. lessThan s (key (?h a)) (key (?h b))) xs" if "set xs \<subseteq> set ?ns" for xs
    proof (rule sorted_wrt_cong_set)
      fix x y assume "x \<in> set xs" "y \<in> set xs"
      with that have "x \<in> set ?ns" "y \<in> set ?ns" by auto
      then show "lessThan s' (key (?h' x)) (key (?h' y)) = lessThan s (key (?h x)) (key (?h y))"
        by (simp only: lt Kold)
    qed
    then have "sorted_wrt (\<lambda>a b. lessThan s' (key (?h' a)) (key (?h' b))) pre"
      and "sorted_wrt (\<lambda>a b. lessThan s' (key (?h' a)) (key (?h' b))) post"
      using srt by (simp_all add: sorted_wrt_append)
    moreover have "\<forall>x\<in>set pre. \<forall>y\<in>set post. lessThan s' (key (?h' x)) (key (?h' y))"
      using srt by (simp add: sorted_wrt_append lt Kold)
    moreover have "\<forall>x\<in>set pre. lessThan s' (key (?h' x)) (key (?h' n))"
      using kp by (simp add: lt Kold K(2))
    moreover have "\<forall>y\<in>set post. lessThan s' (key (?h' n)) (key (?h' y))"
      using kq by (simp add: lt Kold K(2))
    ultimately show ?thesis
      by (auto simp: sorted_wrt_append)
  qed
  have c8: "\<forall>i < height ?h' (header s'). chainf (fwd ?h' i) (header s' # tower ?h' i (pre @ n # post))"
  proof (intro allI impI)
    fix j assume "j < height ?h' (header s')"
    then have j: "j < height ?h ?hd" using nhd by (simp add: hdr Ht(1))
    then have old: "chainf (fwd ?h j) (?hd # tower ?h j pre @ tower ?h j post)"
      using ch by simp
    have olds: "set (?hd # tower ?h j pre @ tower ?h j post) \<subseteq> set (?hd # ?ns)"
      by (auto simp: set_tower)
    have hts: "\<And>x. x \<in> set (?hd # tower ?h j pre @ tower ?h j post) \<Longrightarrow> j < height ?h x"
      using j by (auto simp: set_tower)
    show "chainf (fwd ?h' j) (header s' # tower ?h' j (pre @ n # post))"
    proof (cases "j \<le> L")
      case True
      let ?p = "pr ?h ?hd pre j"
      define A where "A = butlast (?hd # tower ?h j pre)"
      let ?T = "tower ?h j post"
      have sp: "A @ [?p] = ?hd # tower ?h j pre"
        unfolding A_def by (rule pr_split[symmetric])
      have eq: "A @ ?p # ?T = ?hd # tower ?h j pre @ ?T"
      proof -
        have "A @ ?p # ?T = (A @ [?p]) @ ?T" by simp
        then show ?thesis unfolding sp by simp
      qed
      have eq2: "A @ ?p # n # ?T = ?hd # tower ?h j pre @ n # ?T"
      proof -
        have "A @ ?p # n # ?T = (A @ [?p]) @ n # ?T" by simp
        then show ?thesis unfolding sp by simp
      qed
      have old': "chainf (fwd ?h j) (A @ ?p # ?T)"
        unfolding eq by (rule old)
      have ins: "chainf (fwd ?h' j) (A @ ?p # n # ?T)"
      proof (rule chainf_insert[OF old'])
        show "distinct (A @ ?p # ?T)"
          unfolding eq using dist by (auto simp: tower_def)
        show "n \<notin> set (A @ ?p # ?T)"
          unfolding eq using fresh olds by blast
        show "fwd ?h' j x = fwd ?h j x"
          if "x \<in> set (A @ ?p # ?T)" "x \<noteq> ?p" for x
        proof (rule F3)
          show "x \<noteq> n" using that(1) fresh olds unfolding eq by blast
          show "j < height ?h x" using that(1) hts unfolding eq by blast
          show "j \<le> L \<longrightarrow> x \<noteq> ?p" using that(2) by simp
        qed
        show "fwd ?h' j ?p = Some n" using True by (rule F1)
        show "fwd ?h' j n = fwd ?h j ?p" using True by (rule F2)
      qed
      have tn: "tower ?h' j (pre @ n # post) = tower ?h j pre @ n # ?T"
        using True by (simp add: tower_Cons Ht(2) tw)
      show ?thesis
        unfolding hdr tn eq2[symmetric] by (rule ins)
    next
      case False
      have "tower ?h' j (pre @ n # post) = tower ?h j pre @ tower ?h j post"
        using False by (simp add: tower_Cons Ht(2) tw)
      moreover have "chainf (fwd ?h' j) (?hd # tower ?h j pre @ tower ?h j post)
                   = chainf (fwd ?h j) (?hd # tower ?h j pre @ tower ?h j post)"
      proof (rule chainf_cong)
        fix x assume x: "x \<in> set (?hd # tower ?h j pre @ tower ?h j post)"
        show "fwd ?h' j x = fwd ?h j x"
        proof (rule F3)
          show "x \<noteq> n" using x fresh olds by blast
          show "j < height ?h x" using x by (rule hts)
          show "j \<le> L \<longrightarrow> x \<noteq> pr ?h ?hd pre j" using False by simp
        qed
      qed
      ultimately show ?thesis using old by (simp add: hdr)
    qed
  qed
  have c9: "backf (\<lambda>a. backward (?h' a)) None (pre @ n # post)"
  proof -
    have dpp: "distinct (pre @ post)" using dist by simp
    have "backf (\<lambda>a. backward (?h' a)) None pre = backf (\<lambda>a. backward (?h a)) None pre"
    proof (rule backf_cong)
      fix x assume x: "x \<in> set pre"
      then have "post = [] \<or> x \<noteq> hd post" using dpp by (cases post) auto
      with x show "backward (?h' x) = backward (?h x)" by (intro Bold) auto
    qed
    then have b1: "backf (\<lambda>a. backward (?h' a)) None pre"
      using bk by (simp add: backf_append)
    have b2: "backf (\<lambda>a. backward (?h' a)) (Some n) post"
    proof (cases post)
      case Nil
      then show ?thesis by simp
    next
      case (Cons q r)
      have "backf (\<lambda>a. backward (?h' a)) (Some q) r = backf (\<lambda>a. backward (?h a)) (Some q) r"
      proof (rule backf_cong)
        fix x assume x: "x \<in> set r"
        then have "x \<noteq> hd post" using dpp Cons by auto
        with x Cons show "backward (?h' x) = backward (?h x)" by (intro Bold) auto
      qed
      moreover have "backf (\<lambda>a. backward (?h a)) (Some q) r"
        using bk Cons by (simp add: backf_append)
      moreover have "backward (?h' q) = Some n"
        using npost[of q] Cons by (simp add: B2)
      ultimately show ?thesis using Cons by simp
    qed
    show ?thesis
      using b1 b2 B1 by (simp add: backf_append)
  qed
  have c10: "footer s' = (if pre @ n # post = [] then None else Some (last (pre @ n # post)))"
    by (simp add: ft)
  have c11: "length_sl s' = int (length (pre @ n # post))"
    by (simp add: ln len)
  show ?thesis
    unfolding wf_skiplist_def
    using c1 c2 c3 c4 c5 c6 c7 c8 c9 c10 c11 by blast
qed

declare Set_grow.simps [simp del] Set_splice.simps [simp del] randomLevel_loop.simps [simp del]

lemma randomLevel_loop_bounds:
  "n \<le> effectiveMaxLevel s \<Longrightarrow> n \<le> randomLevel_loop s coins n \<and> randomLevel_loop s coins n \<le> effectiveMaxLevel s"
proof (induction s coins n rule: randomLevel_loop.induct)
  case (1 s coins n)
  show ?case
  proof (cases "n < effectiveMaxLevel s \<and> coins (nat n)")
    case True
    with 1 show ?thesis
      by (subst (1 2) randomLevel_loop.simps) auto
  next
    case False
    with 1 show ?thesis
      by (subst (1 2) randomLevel_loop.simps) auto
  qed
qed

lemma randomLevel_bounds:
  "0 \<le> randomLevel s coins \<and> randomLevel s coins \<le> effectiveMaxLevel s"
  using randomLevel_loop_bounds[of 0 s coins]
  by (simp add: randomLevel_def effectiveMaxLevel_def maxInt_def DefaultMaxLevel_def)

lemma grown_0 [simp]: "grown s 0 = s"
  by (simp add: grown_def)

lemma Set_grow_eq:
  "Set_grow s upd (int i) (int L) = (grown s (Suc L - i), upd @ replicate (Suc L - i) (Some (header s)))"
proof (induction "Suc L - i" arbitrary: s upd i)
  case 0
  then show ?case
    by (subst Set_grow.simps) simp
next
  case (Suc m)
  then have m: "m = Suc L - Suc i" and le: "i \<le> L" by auto
  let ?s1 = "s\<lparr>nodes := (nodes s)(header s :=
                  (nodes s (header s))\<lparr>forward := forward (nodes s (header s)) @ [None]\<rparr>)\<rparr>"
  have i1: "int i + 1 = int (Suc i)" by simp
  have "Set_grow s upd (int i) (int L) = Set_grow ?s1 (upd @ [Some (header s)]) (int i + 1) (int L)"
    using le by (subst Set_grow.simps) simp
  also have "\<dots> = (grown ?s1 m, (upd @ [Some (header s)]) @ replicate m (Some (header ?s1)))"
    unfolding m i1 by (rule Suc.hyps(1)[OF m])
  also have "grown ?s1 m = grown s (Suc m)"
    by (simp add: grown_def replicate_append_same)
  also have "(upd @ [Some (header s)]) @ replicate m (Some (header ?s1)) = upd @ replicate (Suc m) (Some (header s))"
    by simp
  finally show ?case using Suc.hyps(2) by simp
qed

lemma spliced_0 [simp]: "spliced h upd n 0 = h"
  by (rule ext) (simp add: spliced_def fwd_def height_def map_nth)

lemma height_spliced [simp]: "height (spliced h upd n m) x = height h x"
  by (simp add: spliced_def height_def)

lemma fwd_spliced:
  "j < height h x \<Longrightarrow> fwd (spliced h upd n m) j x =
     (if j < m then (if x = n then fwd h j (the (upd ! j))
                     else if upd ! j = Some x then Some n else fwd h j x)
      else fwd h j x)"
  by (auto simp: spliced_def fwd_def height_def)

lemma height_upd_forward [simp]:
  "height (h(a := (h a)\<lparr>forward := (forward (h a))[i := v]\<rparr>)) x = height h x"
  by (simp add: height_def)

lemma spliced_fields [simp]:
  "key (spliced h upd n m x) = key (h x)"
  "val (spliced h upd n m x) = val (h x)"
  "backward (spliced h upd n m x) = backward (h x)"
  by (simp_all add: spliced_def)

lemma spliced_step:
  assumes "upd ! i = Some p" "p \<noteq> n" "i < height h p" "i < height h n"
  shows "(spliced h upd n i)
           (n := (spliced h upd n i n)\<lparr>forward := (forward (spliced h upd n i n))[i := fwd h i p]\<rparr>,
            p := (spliced h upd n i p)\<lparr>forward := (forward (spliced h upd n i p))[i := Some n]\<rparr>)
         = spliced h upd n (Suc i)"
proof (rule ext)
  fix x
  let ?l = "(spliced h upd n i)
           (n := (spliced h upd n i n)\<lparr>forward := (forward (spliced h upd n i n))[i := fwd h i p]\<rparr>,
            p := (spliced h upd n i p)\<lparr>forward := (forward (spliced h upd n i p))[i := Some n]\<rparr>)"
  have "forward (?l x) = forward (spliced h upd n (Suc i) x)"
  proof (rule nth_equalityI)
    show "length (forward (?l x)) = length (forward (spliced h upd n (Suc i) x))"
      by (simp add: spliced_def)
    fix j assume "j < length (forward (?l x))"
    then have j: "j < height h x" by (auto simp: spliced_def height_def split: if_splits)
    show "forward (?l x) ! j = forward (spliced h upd n (Suc i) x) ! j"
      using j assms by (auto simp: spliced_def height_def nth_list_update less_Suc_eq)
  qed
  moreover have "key (?l x) = key (spliced h upd n (Suc i) x)"
    "val (?l x) = val (spliced h upd n (Suc i) x)"
    "backward (?l x) = backward (spliced h upd n (Suc i) x)"
    by (simp_all add: spliced_def)
  ultimately show "?l x = spliced h upd n (Suc i) x"
    by (intro node.equality) simp_all
qed

lemma Set_splice_eq:
  assumes "\<forall>j. i \<le> j \<and> j \<le> L \<longrightarrow> j < length upd \<and>
              (\<exists>p. upd ! j = Some p \<and> p \<noteq> n \<and> j < height h p)"
    and "L < height h n" and "i \<le> Suc L"
  shows "Set_splice (spliced h upd n i) upd n (int i) (int L) = Some (spliced h upd n (Suc L))"
  using assms
proof (induction "Suc L - i" arbitrary: i)
  case 0
  then have "i = Suc L" by simp
  then show ?case
    by (subst Set_splice.simps) simp
next
  case (Suc m)
  then have le: "i \<le> L" by simp
  with Suc.prems(1) obtain p where p: "i < length upd" "upd ! i = Some p" "p \<noteq> n" "i < height h p"
    by blast
  have hn: "i < height h n" using le Suc.prems(2) by simp
  have i1: "int i + 1 = int (Suc i)" by simp
  have "Set_splice (spliced h upd n i) upd n (int i) (int L)
      = Set_splice (spliced h upd n (Suc i)) upd n (int i + 1) (int L)"
    using le p hn
    by (subst Set_splice.simps)
       (simp add: fwd_spliced spliced_step[OF p(2,3,4) hn] del: of_nat_Suc)
  also have "\<dots> = Some (spliced h upd n (Suc L))"
    unfolding i1 using Suc.hyps(2) Suc.prems le by (intro Suc.hyps(1)) auto
  finally show ?case .
qed

lemma strict_order_asym:
  "strict_total_order lt \<Longrightarrow> lt (Some a) (Some b) \<Longrightarrow> \<not> lt (Some b) (Some a)"
  unfolding strict_total_order_def by blast

lemma pr_0: "\<forall>x\<in>set pre. 0 < height h x \<Longrightarrow> pr h a pre 0 = last (a # pre)"
  by (simp add: pr_def tower_0)

lemma wf_level0_next:
  assumes "wf_skiplist s (pre @ post)"
  shows "fwd (nodes s) 0 (last (header s # pre)) = (case post of [] \<Rightarrow> None | b # r \<Rightarrow> Some b)"
proof -
  have pos: "\<forall>x\<in>set (pre @ post). 0 < height (nodes s) x"
    using assms by (simp add: wf_skiplist_def)
  have "chainf (fwd (nodes s) 0) (header s # tower (nodes s) 0 (pre @ post))"
    using assms by (simp add: wf_skiplist_def)
  then have c: "chainf (fwd (nodes s) 0) ((header s # pre) @ post)"
    using pos by (simp add: tower_0 del: tower_append)
  define cl where "cl = last (header s # pre)"
  define bl where "bl = butlast (header s # pre)"
  have e: "bl @ [cl] = header s # pre"
    unfolding bl_def cl_def by (rule append_butlast_last_id) simp
  have "bl @ cl # post = (bl @ [cl]) @ post" by simp
  then have eq: "bl @ cl # post = (header s # pre) @ post" unfolding e .
  have "chainf (fwd (nodes s) 0) (bl @ cl # post)" unfolding eq by (rule c)
  then have "fwd (nodes s) 0 cl = (case post of [] \<Rightarrow> None | b # r \<Rightarrow> Some b)"
    by (rule chainf_next)
  then show ?thesis unfolding cl_def .
qed

lemma Set_link_wf:
  fixes s :: "('k, 'v) SkipList"
  assumes wf: "wf_skiplist s (pre @ post)" and ord: "strict_total_order (lessThan s)"
    and kp: "\<forall>x\<in>set pre. lessThan s (key (nodes s x)) (Some k)"
    and kq: "\<forall>x\<in>set post. lessThan s (Some k) (key (nodes s x))"
    and path: "\<forall>j < height (nodes s) (header s). upd ! j = Some (pr (nodes s) (header s) pre j)"
    and ulen: "height (nodes s) (header s) \<le> length upd"
    and L: "L < height (nodes s) (header s)"
  shows "\<exists>s'. Set_link s upd (Some k) v (int L) = Some s' \<and>
           wf_skiplist s' (pre @ nalloc s # post) \<and>
           lessThan s' = lessThan s \<and> header s' = header s \<and> update s' = update s \<and>
           nalloc s' = Suc (nalloc s) \<and>
           key (nodes s' (nalloc s)) = Some k \<and> val (nodes s' (nalloc s)) = v \<and>
           (\<forall>x. x \<noteq> nalloc s \<longrightarrow> key (nodes s' x) = key (nodes s x) \<and>
                                   val (nodes s' x) = val (nodes s x))"
proof -
  let ?h = "nodes s" and ?hd = "header s"
  let ?ns = "pre @ post"
  define n where "n = nalloc s"
  let ?pr = "pr ?h ?hd pre"
  from wf have dist: "distinct (?hd # ?ns)" and bound: "\<forall>a\<in>set (?hd # ?ns). a < nalloc s"
    and hk: "key (?h ?hd) = None"
    and hh: "0 < height ?h ?hd" "height ?h ?hd \<le> length (update s)"
    and ul: "length (update s) = nat (DefaultMaxLevel + 1)"
    and nk: "\<forall>a\<in>set ?ns. key (?h a) \<noteq> None \<and> 0 < height ?h a \<and> height ?h a \<le> height ?h ?hd"
    and ftr: "footer s = (if ?ns = [] then None else Some (last ?ns))"
    by (simp_all add: wf_skiplist_def)
  have fresh: "n \<notin> set (?hd # ?ns)" using bound n_def by auto
  have old_n: "x \<noteq> n" if "x \<in> set (?hd # ?ns)" for x using that fresh by auto
  have prin: "?pr j \<in> set (?hd # ?ns)" for j
    using pr_in[of ?h ?hd pre j] by (auto simp: set_tower)
  have prn: "?pr j \<noteq> n" for j by (rule old_n[OF prin])
  have prh: "j < height ?h (?pr j)" if "j < height ?h ?hd" for j
    using that by (rule pr_height)
  have pr0: "?pr 0 = last (?hd # pre)"
    using nk by (intro pr_0) auto
  define previous where "previous = last (?hd # pre)"
  have "0 < length upd" using hh ulen by linarith
  moreover have "upd ! 0 = Some previous"
    using path hh pr0 by (simp add: previous_def)
  ultimately have u0: "index upd 0 = Some (Some previous)"
    by (simp add: index_def)
  have pk: "(key (?h previous) \<noteq> None) = (pre \<noteq> [])"
    using hk nk by (auto simp: previous_def)
  define n1 :: "('k, 'v) node" where
    "n1 = \<lparr>forward = replicate (Suc L) None,
           backward = (if pre = [] then None else Some (last pre)), key = Some k, val = v\<rparr>"
  define h1 where "h1 = ?h(n := n1)"
  have h1_old: "h1 x = ?h x" if "x \<noteq> n" for x using that by (simp add: h1_def)
  have h1_n: "h1 n = n1" by (simp add: h1_def)
  have ht1: "height h1 x = (if x = n then Suc L else height ?h x)" for x
    by (simp add: h1_def height_def n1_def)
  have f1: "fwd h1 j x = fwd ?h j x" if "x \<noteq> n" for j x
    using that by (simp add: h1_def fwd_def)
  define h2 where "h2 = spliced h1 upd n (Suc L)"
  have sp: "Set_splice h1 upd n 0 (int L) = Some h2"
  proof -
    have "Set_splice (spliced h1 upd n 0) upd n (int 0) (int L) = Some (spliced h1 upd n (Suc L))"
    proof (rule Set_splice_eq)
      show "\<forall>j. 0 \<le> j \<and> j \<le> L \<longrightarrow> j < length upd \<and>
              (\<exists>p. upd ! j = Some p \<and> p \<noteq> n \<and> j < height h1 p)"
      proof (intro allI impI)
        fix j assume "0 \<le> j \<and> j \<le> L"
        then have j: "j < height ?h ?hd" using L by simp
        then have "upd ! j = Some (?pr j)" using path by simp
        moreover have "j < height h1 (?pr j)" using prh[OF j] prn by (simp add: ht1)
        ultimately show "j < length upd \<and> (\<exists>p. upd ! j = Some p \<and> p \<noteq> n \<and> j < height h1 p)"
          using j ulen prn by auto
      qed
      show "L < height h1 n" by (simp add: ht1)
      show "0 \<le> Suc L" by simp
    qed
    then show ?thesis by (simp add: h2_def)
  qed
  have ht2: "height h2 x = (if x = n then Suc L else height ?h x)" for x
    by (simp add: h2_def ht1)
  have f2n: "fwd h2 j n = fwd ?h j (?pr j)" if "j \<le> L" for j
  proof -
    have j: "j < height ?h ?hd" using that L by simp
    have "fwd h2 j n = fwd h1 j (the (upd ! j))"
      unfolding h2_def using that by (subst fwd_spliced) (simp_all add: ht1)
    also have "\<dots> = fwd ?h j (?pr j)"
      using path j prn by (simp add: f1)
    finally show ?thesis .
  qed
  have f2p: "fwd h2 j (?pr j) = Some n" if "j \<le> L" for j
  proof -
    have j: "j < height ?h ?hd" using that L by simp
    show ?thesis
      unfolding h2_def using that prn prh[OF j] path j
      by (subst fwd_spliced) (simp_all add: ht1)
  qed
  have f2o: "fwd h2 j x = fwd ?h j x"
    if "x \<noteq> n" "j < height ?h x" "j \<le> L \<longrightarrow> x \<noteq> ?pr j" for x j
  proof -
    have "j \<le> L \<Longrightarrow> upd ! j \<noteq> Some x"
      using that(3) path L by auto
    then show ?thesis
      unfolding h2_def using that(1,2)
      by (subst fwd_spliced) (auto simp: ht1 f1)
  qed
  define nx where "nx = (case post of [] \<Rightarrow> None | b # r \<Rightarrow> Some b)"
  have gf: "get_forward h2 n 0 = Some nx"
  proof -
    have "fwd h2 0 n = fwd ?h 0 (?pr 0)" by (rule f2n) simp
    also have "\<dots> = nx" unfolding pr0 nx_def by (rule wf_level0_next[OF wf])
    finally show ?thesis
      using get_forward_int[of h2 n 0] by (simp add: ht2)
  qed
  define h3 where "h3 = (case nx of None \<Rightarrow> h2
                          | Some f \<Rightarrow> h2(f := (h2 f)\<lparr>backward := Some n\<rparr>))"
  have h3_alt: "(case nx of None \<Rightarrow> h2
                 | Some f \<Rightarrow> if backward (h2 f) \<noteq> Some n
                             then h2(f := (h2 f)\<lparr>backward := Some n\<rparr>) else h2) = h3"
  proof (cases nx)
    case None
    then show ?thesis by (simp add: h3_def)
  next
    case (Some f)
    have "h2(f := (h2 f)\<lparr>backward := Some n\<rparr>) = h2" if "backward (h2 f) = Some n"
      using that by (intro ext) simp
    then show ?thesis using Some by (auto simp: h3_def)
  qed
  have f3: "fwd h3 j x = fwd h2 j x" for j x
    by (cases nx) (simp_all add: h3_def fwd_def)
  have "height h3 x = height h2 x" for x
    by (cases nx) (simp_all add: h3_def height_def)
  then have ht3: "height h3 x = (if x = n then Suc L else height ?h x)" for x
    by (simp add: ht2)
  have k3: "key (h3 x) = (if x = n then Some k else key (?h x))" for x
    by (cases nx) (simp_all add: h3_def h2_def h1_def n1_def)
  have v3: "val (h3 x) = (if x = n then v else val (?h x))" for x
    by (cases nx) (simp_all add: h3_def h2_def h1_def n1_def)
  have nxp: "nx = Some f \<longleftrightarrow> post \<noteq> [] \<and> f = hd post" for f
    by (cases post) (auto simp: nx_def)
  have b3: "backward (h3 x) = (if post \<noteq> [] \<and> x = hd post then Some n
                               else if x = n then (if pre = [] then None else Some (last pre))
                               else backward (?h x))" for x
    by (cases post) (simp_all add: h3_def nx_def h2_def h1_def n1_def)
  have hpn: "post \<noteq> [] \<Longrightarrow> hd post \<noteq> n"
    using old_n[of "hd post"] by (cases post) auto
  define ft where "ft = Some (if post = [] then n else last post)"
  have ft_eq: "(case footer s of None \<Rightarrow> Some n
               | Some f \<Rightarrow> if lessThan s (key (h3 f)) (Some k) then Some n else Some f) = ft"
  proof (cases "?ns = []")
    case True
    then show ?thesis by (simp add: ftr ft_def)
  next
    case False
    then have fs: "footer s = Some (last ?ns)" by (simp add: ftr)
    have ln: "last ?ns \<noteq> n" using False old_n[of "last ?ns"] last_in_set[OF False] by auto
    show ?thesis
    proof (cases "post = []")
      case True
      with False have "last ?ns \<in> set pre" by (auto simp: last_in_set)
      with kp have "lessThan s (key (?h (last ?ns))) (Some k)" by blast
      then show ?thesis using True ln by (simp add: fs ft_def k3)
    next
      case False
      then have lp: "last ?ns = last post" "last post \<in> set post" by simp_all
      with kq have lt: "lessThan s (Some k) (key (?h (last post)))" by blast
      from lp nk obtain kf where "key (?h (last post)) = Some kf" by auto
      with lt ord have "\<not> lessThan s (key (?h (last post))) (Some k)"
        by (auto dest: strict_order_asym)
      then show ?thesis using False ln lp by (simp add: fs ft_def k3)
    qed
  qed
  define s' where "s' = s\<lparr>nodes := h3, nalloc := n + 1, length_sl := length_sl s + 1, footer := ft\<rparr>"
  have eff: "0 \<le> int L + 1 \<and> int L + 1 \<le> effectiveMaxLevel s + 1"
    using L by (simp add: effectiveMaxLevel_def maxInt_def level_def height_def)
  have n1_eq: "(if key (?h previous) \<noteq> None
         then \<lparr>forward = replicate (nat (int L + 1)) None, backward = None, key = Some k, val = v\<rparr>
              \<lparr>backward := Some previous\<rparr>
         else \<lparr>forward = replicate (nat (int L + 1)) None, backward = None, key = Some k, val = v\<rparr>) = n1"
    unfolding pk by (simp add: n1_def previous_def nat_add_distrib)
  have res: "Set_link s upd (Some k) v (int L) = Some s'"
    unfolding Set_link_def Let_def
    by (simp only: eff not_True_eq_False if_False simp_thms u0 option.case n_def[symmetric] n1_eq
          h1_def[symmetric] sp gf h3_alt ft_eq s'_def)
  have "wf_skiplist s' (pre @ n # post)"
  proof (rule insert_wf[OF wf kp kq n_def L])
    show "header s' = header s" "lessThan s' = lessThan s" "length (update s') = length (update s)"
      "nalloc s' = Suc n" "length_sl s' = length_sl s + 1"
      by (simp_all add: s'_def)
    show "footer s' = Some (if post = [] then n else last post)"
      by (simp add: s'_def ft_def)
    show "key (nodes s' x) = key (?h x)" if "x \<noteq> n" for x
      using that by (simp add: s'_def k3)
    show "key (nodes s' n) = Some k" by (simp add: s'_def k3)
    show "height (nodes s') x = height ?h x" if "x \<noteq> n" for x
      using that by (simp add: s'_def ht3)
    show "height (nodes s') n = Suc L" by (simp add: s'_def ht3)
    show "backward (nodes s' n) = (if pre = [] then None else Some (last pre))"
      using hpn by (auto simp: s'_def b3)
    show "backward (nodes s' x) = (if post \<noteq> [] \<and> x = hd post then Some n else backward (?h x))"
      if "x \<noteq> n" for x
      using that by (simp add: s'_def b3)
    show "fwd (nodes s') j (?pr j) = Some n" if "j \<le> L" for j
      using f2p[OF that] by (simp add: s'_def f3)
    show "fwd (nodes s') j n = fwd ?h j (?pr j)" if "j \<le> L" for j
      using f2n[OF that] by (simp add: s'_def f3)
    show "fwd (nodes s') j x = fwd ?h j x"
      if "x \<noteq> n" "j < height ?h x" "j \<le> L \<longrightarrow> x \<noteq> ?pr j" for x j
      using f2o[OF that] by (simp add: s'_def f3)
  qed
  then show ?thesis
    using res by (auto simp: n_def s'_def k3 v3)
qed

lemma wf_frame:
  fixes s s' :: "('k, 'v) SkipList"
  assumes wf: "wf_skiplist s ns"
    and same: "header s' = header s" "lessThan s' = lessThan s" "footer s' = footer s"
      "length_sl s' = length_sl s" "length (update s') = length (update s)"
      "nalloc s \<le> nalloc s'"
    and nodes: "\<And>x. x \<in> set (header s # ns) \<Longrightarrow>
        forward (nodes s' x) = forward (nodes s x) \<and> backward (nodes s' x) = backward (nodes s x) \<and>
        key (nodes s' x) = key (nodes s x)"
  shows "wf_skiplist s' ns"
proof -
  let ?h = "nodes s" and ?h' = "nodes s'" and ?hd = "header s"
  have H: "height ?h' x = height ?h x" if "x \<in> set (?hd # ns)" for x
    using nodes[OF that] by (simp add: height_def)
  have F: "fwd ?h' i x = fwd ?h i x" if "x \<in> set (?hd # ns)" for x i
    using nodes[OF that] by (simp add: fwd_def)
  have tw: "tower ?h' i ns = tower ?h i ns" for i
    by (rule tower_cong) (simp add: H)
  have ch: "chainf (fwd ?h' i) (?hd # tower ?h i ns) = chainf (fwd ?h i) (?hd # tower ?h i ns)" for i
    by (rule chainf_cong) (auto simp: F set_tower)
  have bk: "backf (\<lambda>a. backward (?h' a)) None ns = backf (\<lambda>a. backward (?h a)) None ns"
    by (rule backf_cong) (simp add: nodes)
  have st: "sorted_wrt (\<lambda>a b. lessThan s (key (?h' a)) (key (?h' b))) ns
          = sorted_wrt (\<lambda>a b. lessThan s (key (?h a)) (key (?h b))) ns"
    by (rule sorted_wrt_cong_set) (simp add: nodes)
  have hdn: "key (?h' ?hd) = key (?h ?hd)" "backward (?h' ?hd) = backward (?h ?hd)"
    "height ?h' ?hd = height ?h ?hd"
    using nodes[of ?hd] H[of ?hd] by simp_all
  have nsn: "\<forall>a\<in>set ns. key (?h' a) = key (?h a) \<and> height ?h' a = height ?h a"
    using nodes H by simp
  show ?thesis
    using wf same(6) nsn
    unfolding wf_skiplist_def same(1-5) hdn tw ch bk st
    by auto
qed

lemma store_update_fields [simp]:
  "header (store_update s u) = header s" "lessThan (store_update s u) = lessThan s"
  "footer (store_update s u) = footer s" "length_sl (store_update s u) = length_sl s"
  "nodes (store_update s u) = nodes s" "nalloc (store_update s u) = nalloc s"
  "length (update (store_update s u)) = length (update s)"
  by (auto simp: store_update_def)

lemma store_update_wf: "wf_skiplist s ns \<Longrightarrow> wf_skiplist (store_update s u) ns"
  by (erule wf_frame) simp_all

lemma grown_fields [simp]:
  "header (grown s m) = header s" "lessThan (grown s m) = lessThan s"
  "footer (grown s m) = footer s" "length_sl (grown s m) = length_sl s"
  "update (grown s m) = update s" "nalloc (grown s m) = nalloc s"
  by (simp_all add: grown_def)

lemma grown_nodes:
  "x \<noteq> header s \<Longrightarrow> nodes (grown s m) x = nodes s x"
  "key (nodes (grown s m) x) = key (nodes s x)"
  "val (nodes (grown s m) x) = val (nodes s x)"
  "backward (nodes (grown s m) x) = backward (nodes s x)"
  "forward (nodes (grown s m) (header s)) = forward (nodes s (header s)) @ replicate m None"
  by (simp_all add: grown_def)

lemma grown_height:
  "height (nodes (grown s m)) x = (if x = header s then height (nodes s) x + m else height (nodes s) x)"
  by (simp add: grown_def height_def)

lemma grown_wf:
  fixes s :: "('k, 'v) SkipList"
  assumes wf: "wf_skiplist s ns" and m: "height (nodes s) (header s) + m \<le> nat (DefaultMaxLevel + 1)"
  shows "wf_skiplist (grown s m) ns"
proof -
  let ?h = "nodes s" and ?h' = "nodes (grown s m)" and ?hd = "header s"
  from wf have dist: "distinct (?hd # ns)"
    and nk: "\<forall>a\<in>set ns. key (?h a) \<noteq> None \<and> 0 < height ?h a \<and> height ?h a \<le> height ?h ?hd"
    and ch: "\<forall>i < height ?h ?hd. chainf (fwd ?h i) (?hd # tower ?h i ns)"
    by (simp_all add: wf_skiplist_def)
  have nhd: "x \<noteq> ?hd" if "x \<in> set ns" for x using that dist by auto
  have tw: "tower ?h' i ns = tower ?h i ns" for i
    by (rule tower_cong) (simp add: grown_height nhd)
  have bk: "backf (\<lambda>a. backward (?h' a)) None ns = backf (\<lambda>a. backward (?h a)) None ns"
    by (simp add: grown_nodes)
  have c8: "chainf (fwd ?h' i) (?hd # tower ?h i ns)" if i: "i < height ?h ?hd + m" for i
  proof (cases "i < height ?h ?hd")
    case True
    have "chainf (fwd ?h' i) (?hd # tower ?h i ns) = chainf (fwd ?h i) (?hd # tower ?h i ns)"
    proof (rule chainf_cong)
      fix x assume "x \<in> set (?hd # tower ?h i ns)"
      then consider "x = ?hd" | "x \<in> set ns" by (auto simp: set_tower)
      then show "fwd ?h' i x = fwd ?h i x"
      proof cases
        case 1
        then show ?thesis using True
          by (simp add: fwd_def grown_nodes(5) nth_append height_def)
      next
        case 2
        then show ?thesis by (simp add: fwd_def grown_nodes(1) nhd)
      qed
    qed
    with ch True show ?thesis by simp
  next
    case False
    then have "tower ?h i ns = []"
      using nk by (auto simp: tower_def filter_empty_conv)
    moreover have "fwd ?h' i ?hd = None"
      using False i by (simp add: fwd_def grown_nodes(5) nth_append height_def)
    ultimately show ?thesis by simp
  qed
  have hh: "height ?h' ?hd = height ?h ?hd + m" by (simp add: grown_height)
  have nsn: "\<forall>a\<in>set ns. height ?h' a = height ?h a"
    by (simp add: grown_height nhd)
  show ?thesis
    using wf m c8 nsn
    unfolding wf_skiplist_def grown_fields grown_nodes(2,4) hh tw bk
    by auto
qed

lemma wf_keys_distinct:
  assumes "wf_skiplist s ns" and "strict_total_order (lessThan s)"
  shows "distinct (map (\<lambda>a. key (nodes s a)) ns)"
proof -
  from assms(1) have srt: "sorted_wrt (\<lambda>a b. lessThan s (key (nodes s a)) (key (nodes s b))) ns"
    and nk: "\<forall>a\<in>set ns. key (nodes s a) \<noteq> None"
    by (simp_all add: wf_skiplist_def)
  have "sorted_wrt (\<lambda>a b. key (nodes s a) \<noteq> key (nodes s b)) ns"
  proof (rule sorted_wrt_mono_rel[OF _ srt])
    fix x y assume "x \<in> set ns" "y \<in> set ns" "lessThan s (key (nodes s x)) (key (nodes s y))"
    with nk assms(2) show "key (nodes s x) \<noteq> key (nodes s y)"
      unfolding strict_total_order_def by (metis not_Some_eq)
  qed
  then show ?thesis
    by (simp add: distinct_map inj_on_def sorted_wrt_iff_nth_less nth_eq_iff_index_eq distinct_conv_nth)
       (metis linorder_neqE_nat)
qed

lemma level_height: "level s = int (height (nodes s) (header s)) - 1"
  by (simp add: level_def height_def)

lemma Set_insert_wf:
  fixes s :: "('k, 'v) SkipList"
  assumes wf: "wf_skiplist s (pre @ post)" and ord: "strict_total_order (lessThan s)"
    and kp: "\<forall>x\<in>set pre. lessThan s (key (nodes s x)) (Some k)"
    and kq: "\<forall>x\<in>set post. lessThan s (Some k) (key (nodes s x))"
    and path: "\<forall>j < height (nodes s) (header s). upd ! j = Some (pr (nodes s) (header s) pre j)"
    and ulen: "length upd = height (nodes s) (header s)"
  shows "\<exists>s'. Set_insert s upd (Some k) v coins = Some s' \<and>
           wf_skiplist s' (pre @ nalloc s # post) \<and>
           lessThan s' = lessThan s \<and> header s' = header s \<and>
           nalloc s' = Suc (nalloc s) \<and>
           key (nodes s' (nalloc s)) = Some k \<and> val (nodes s' (nalloc s)) = v \<and>
           (\<forall>x. x \<noteq> nalloc s \<longrightarrow> key (nodes s' x) = key (nodes s x) \<and>
                                   val (nodes s' x) = val (nodes s x))"
proof -
  let ?h = "nodes s" and ?hd = "header s"
  let ?H = "height ?h ?hd"
  define L where "L = nat (randomLevel s coins)"
  from wf have dist: "distinct (?hd # pre @ post)"
    and hh: "0 < ?H" "?H \<le> length (update s)"
    and ul: "length (update s) = nat (DefaultMaxLevel + 1)"
    and nk: "\<forall>a\<in>set (pre @ post). key (?h a) \<noteq> None \<and> 0 < height ?h a \<and> height ?h a \<le> ?H"
    by (simp_all add: wf_skiplist_def)
  have rl: "randomLevel s coins = int L"
    using randomLevel_bounds[of s coins] by (simp add: L_def)
  have "int L \<le> effectiveMaxLevel s"
    using randomLevel_bounds[of s coins] by (simp add: rl)
  then have L32: "Suc L \<le> nat (DefaultMaxLevel + 1)"
    using hh ul by (auto simp: effectiveMaxLevel_def maxInt_def level_height DefaultMaxLevel_def
        split: if_splits)
  show ?thesis
  proof (cases "L < ?H")
    case True
    have e: "Set_insert s upd (Some k) v coins = Set_link s upd (Some k) v (int L)"
      using True by (simp add: Set_insert_def rl level_height)
    have ul': "?H \<le> length upd" using ulen by simp
    show ?thesis
      using Set_link_wf[OF wf ord kp kq path ul' True, where v = v] unfolding e by blast
  next
    case False
    define m where "m = Suc L - ?H"
    define u' where "u' = upd @ replicate m (Some ?hd)"
    define s1 where "s1 = store_update (grown s m) u'"
    have Hm: "?H + m = Suc L" using False by (simp add: m_def)
    have gr: "Set_grow s upd (int ?H) (int L) = (grown s m, u')"
      by (simp add: Set_grow_eq m_def u'_def)
    have lv: "level s + 1 = int ?H" by (simp add: level_height)
    have ins: "Set_insert s upd (Some k) v coins = Set_link s1 u' (Some k) v (int L)"
      unfolding Set_insert_def Let_def rl lv gr s1_def
      using False by (simp add: level_height)
    have wf1: "wf_skiplist s1 (pre @ post)"
      unfolding s1_def using wf L32 Hm by (intro store_update_wf grown_wf) simp_all
    have n1: "nodes s1 = nodes (grown s m)" "header s1 = ?hd" "lessThan s1 = lessThan s"
      "nalloc s1 = nalloc s"
      by (simp_all add: s1_def)
    have h1: "height (nodes s1) ?hd = Suc L"
      by (simp add: n1 grown_height Hm)
    have nhd: "x \<noteq> ?hd" if "x \<in> set (pre @ post)" for x using that dist by auto
    have k1: "key (nodes s1 x) = key (?h x)" for x
      by (simp add: n1 grown_nodes)
    have v1: "val (nodes s1 x) = val (?h x)" for x
      by (simp add: n1 grown_nodes)
    have tw: "tower (nodes s1) j pre = tower ?h j pre" for j
    proof (rule tower_cong)
      fix x assume "x \<in> set pre"
      then have "x \<noteq> ?hd" using nhd by simp
      then show "height (nodes s1) x = height ?h x" by (simp add: n1 grown_height)
    qed
    have pr1: "pr (nodes s1) (header s1) pre j = pr ?h ?hd pre j" for j
      by (simp only: pr_def tw n1(2))
    have path1: "\<forall>j < height (nodes s1) (header s1). u' ! j = Some (pr (nodes s1) (header s1) pre j)"
    proof (intro allI impI)
      fix j assume "j < height (nodes s1) (header s1)"
      then have j: "j < Suc L" by (simp only: n1(2) h1)
      show "u' ! j = Some (pr (nodes s1) (header s1) pre j)"
        unfolding pr1
      proof (cases "j < ?H")
        case True
        then show "u' ! j = Some (pr ?h ?hd pre j)"
          using path ulen by (simp add: u'_def nth_append)
      next
        case False
        have "\<not> j < height ?h x" if "x \<in> set pre" for x
        proof -
          from that nk have "height ?h x \<le> ?H" by simp
          with False show ?thesis by linarith
        qed
        then have "tower ?h j pre = []"
          by (simp add: tower_def filter_empty_conv)
        then have "pr ?h ?hd pre j = ?hd" by (simp add: pr_def)
        moreover have "j - ?H < m" using False j Hm by simp
        ultimately show "u' ! j = Some (pr ?h ?hd pre j)"
          using False ulen by (simp add: u'_def nth_append)
      qed
    qed
    have ul1: "height (nodes s1) (header s1) \<le> length u'"
      unfolding n1(2) h1 using Hm ulen by (simp add: u'_def)
    have L1: "L < height (nodes s1) (header s1)" unfolding n1(2) h1 by simp
    have kp1: "\<forall>x\<in>set pre. lessThan s1 (key (nodes s1 x)) (Some k)"
      using kp by (simp add: n1(3) k1)
    have kq1: "\<forall>x\<in>set post. lessThan s1 (Some k) (key (nodes s1 x))"
      using kq by (simp add: n1(3) k1)
    have ord1: "strict_total_order (lessThan s1)" using ord by (simp add: n1)
    show ?thesis
      using Set_link_wf[OF wf1 ord1 kp1 kq1 path1 ul1 L1, where v = v]
      unfolding ins n1(2,3,4) k1 v1 by blast
  qed
qed

lemma key_split:
  fixes s :: "('k, 'v) SkipList" and k :: 'k
  assumes wf: "wf_skiplist s ns" and ord: "strict_total_order (lessThan s)"
  defines "pre \<equiv> takeWhile (key_lt s (Some k)) ns" and "post \<equiv> dropWhile (key_lt s (Some k)) ns"
  shows "ns = pre @ post"
    and "\<forall>x\<in>set pre. lessThan s (key (nodes s x)) (Some k)"
    and "\<forall>x\<in>set post. \<not> lessThan s (key (nodes s x)) (Some k)"
    and "Some k \<in> (\<lambda>a. key (nodes s a)) ` set ns \<longleftrightarrow> post \<noteq> [] \<and> key (nodes s (hd post)) = Some k"
    and "Some k \<notin> (\<lambda>a. key (nodes s a)) ` set ns \<Longrightarrow>
           \<forall>x\<in>set post. lessThan s (Some k) (key (nodes s x))"
proof -
  let ?h = "nodes s"
  from wf have srt: "sorted_wrt (\<lambda>a b. lessThan s (key (?h a)) (key (?h b))) ns"
    and nk: "\<forall>a\<in>set ns. key (?h a) \<noteq> None"
    by (simp_all add: wf_skiplist_def)
  show split: "ns = pre @ post" by (simp add: pre_def post_def)
  show kp: "\<forall>x\<in>set pre. lessThan s (key (?h x)) (Some k)"
    by (auto simp: pre_def key_lt_def dest: set_takeWhileD)
  show nq: "\<forall>x\<in>set post. \<not> lessThan s (key (?h x)) (Some k)"
    using sorted_dropWhile_not[OF ord srt nk, of k] by (simp add: post_def key_lt_def)
  have irr: "\<not> lessThan s (Some k) (Some k)"
    using ord by (simp add: strict_total_order_def)
  show pres: "Some k \<in> (\<lambda>a. key (?h a)) ` set ns \<longleftrightarrow> post \<noteq> [] \<and> key (?h (hd post)) = Some k"
  proof
    assume "Some k \<in> (\<lambda>a. key (?h a)) ` set ns"
    then obtain a where a: "a \<in> set ns" "key (?h a) = Some k" by auto
    with kp irr have "a \<notin> set pre" by auto
    with a split have ap: "a \<in> set post" by auto
    then obtain q r where qr: "post = q # r" by (cases post) auto
    have "a = q"
    proof (rule ccontr)
      assume "a \<noteq> q"
      with ap qr have "a \<in> set r" by simp
      moreover have "sorted_wrt (\<lambda>a b. lessThan s (key (?h a)) (key (?h b))) (q # r)"
        using srt split qr by (simp add: sorted_wrt_append)
      ultimately have "lessThan s (key (?h q)) (key (?h a))" by simp
      with a nq qr show False by simp
    qed
    with a qr show "post \<noteq> [] \<and> key (?h (hd post)) = Some k" by simp
  next
    assume "post \<noteq> [] \<and> key (?h (hd post)) = Some k"
    moreover then have "hd post \<in> set ns" using split by (cases post) auto
    ultimately show "Some k \<in> (\<lambda>a. key (?h a)) ` set ns" by force
  qed
  show "\<forall>x\<in>set post. lessThan s (Some k) (key (?h x))"
    if np: "Some k \<notin> (\<lambda>a. key (?h a)) ` set ns"
  proof
    fix x assume x: "x \<in> set post"
    then have xn: "x \<in> set ns" using split by simp
    with nk obtain kx where kx: "key (?h x) = Some kx" by auto
    with np xn have "kx \<noteq> k" by force
    moreover have "\<not> lessThan s (Some kx) (Some k)" using nq x kx by auto
    ultimately show "lessThan s (Some k) (key (?h x))"
      using ord kx unfolding strict_total_order_def by metis
  qed
qed

lemma Set_wf:
  fixes s :: "('k, 'v) SkipList"
  assumes wf: "wf_skiplist s ns" and ord: "strict_total_order (lessThan s)"
  shows "\<exists>s'. Set s (Some k) v coins = Some s' \<and> lessThan s' = lessThan s \<and> header s' = header s \<and>
     (if Some k \<in> (\<lambda>a. key (nodes s a)) ` set ns
      then wf_skiplist s' ns \<and> nalloc s' = nalloc s \<and>
           (\<forall>x. key (nodes s' x) = key (nodes s x) \<and>
                forward (nodes s' x) = forward (nodes s x) \<and>
                backward (nodes s' x) = backward (nodes s x) \<and>
                val (nodes s' x) = (if x \<in> set ns \<and> key (nodes s x) = Some k then v
                                    else val (nodes s x)))
      else wf_skiplist s' (takeWhile (key_lt s (Some k)) ns @ nalloc s # dropWhile (key_lt s (Some k)) ns) \<and>
           nalloc s' = Suc (nalloc s) \<and>
           key (nodes s' (nalloc s)) = Some k \<and> val (nodes s' (nalloc s)) = v \<and>
           (\<forall>x. x \<noteq> nalloc s \<longrightarrow> key (nodes s' x) = key (nodes s x) \<and>
                                   val (nodes s' x) = val (nodes s x)))"
proof -
  let ?h = "nodes s" and ?hd = "header s"
  let ?H = "height ?h ?hd"
  define pre where "pre = takeWhile (key_lt s (Some k)) ns"
  define post where "post = dropWhile (key_lt s (Some k)) ns"
  note ks = key_split[OF wf ord, of k, folded pre_def post_def]
  from wf have hh: "0 < ?H" "?H \<le> length (update s)"
    by (simp_all add: wf_skiplist_def)
  define upd0 where "upd0 = take ?H (update s)"
  have l0: "length upd0 = ?H" using hh by (simp add: upd0_def)
  have sl: "slice_to (update s) (level s + 1) = Some upd0"
    using hh by (simp add: slice_to_def level_height upd0_def)
  define upd where "upd = map (\<lambda>j. Some (pr ?h ?hd pre j)) [0..<?H]"
  define cand where "cand = (case post of [] \<Rightarrow> None | a # r \<Rightarrow> Some a)"
  have mp: "map (\<lambda>j. if j < ?H
                     then Some (last (?hd # tower ?h j (takeWhile (key_lt s (Some k)) ns)))
                     else upd0 ! j) [0..<length upd0] = upd"
    unfolding upd_def pr_def pre_def l0 by (rule map_cong) simp_all
  have gp: "getPath s ?hd (Some upd0) (Some k) = Some (cand, Some upd)"
  proof -
    have e1: "header s # ns = [] @ ?hd # ns" by simp
    have e2: "case Some upd0 of None \<Rightarrow> True | Some u \<Rightarrow> ?H \<le> length u"
      by (simp add: l0)
    have "getPath s ?hd (Some upd0) (Some k) =
           Some (case dropWhile (key_lt s (Some k)) ns of [] \<Rightarrow> None | a # r \<Rightarrow> Some a,
                 map_option (\<lambda>u. map (\<lambda>j. if j < ?H
                     then Some (last (?hd # tower ?h j (takeWhile (key_lt s (Some k)) ns)))
                     else u ! j) [0..<length u]) (Some upd0))"
      by (rule getPath_from[OF wf ord e1 e2])
    then show ?thesis
      unfolding cand_def post_def option.map mp .
  qed
  define s1 where "s1 = store_update s upd"
  have wf1: "wf_skiplist s1 ns" unfolding s1_def using wf by (rule store_update_wf)
  have f1: "nodes s1 = ?h" "header s1 = ?hd" "lessThan s1 = lessThan s" "nalloc s1 = nalloc s"
    by (simp_all add: s1_def)
  have set_eq: "Set s (Some k) v coins =
      (case cand of None \<Rightarrow> Set_insert s1 upd (Some k) v coins
       | Some c \<Rightarrow> if key (?h c) = Some k
                   then Some (s1\<lparr>nodes := ?h(c := (?h c)\<lparr>val := v\<rparr>)\<rparr>)
                   else Set_insert s1 upd (Some k) v coins)"
    by (cases cand) (simp_all add: Set_def sl gp s1_def[symmetric] f1)
  show ?thesis
  proof (cases "Some k \<in> (\<lambda>a. key (?h a)) ` set ns")
    case True
    with ks(4) obtain c r where post: "post = c # r" and kc: "key (?h c) = Some k"
      by (cases post) auto
    have cn: "c \<in> set ns" using ks(1) post by simp
    define s' where "s' = s1\<lparr>nodes := ?h(c := (?h c)\<lparr>val := v\<rparr>)\<rparr>"
    have res: "Set s (Some k) v coins = Some s'"
      by (simp add: set_eq cand_def post kc s'_def)
    have wf': "wf_skiplist s' ns"
      by (rule wf_frame[OF wf1]) (simp_all add: s'_def f1)
    have inj: "inj_on (\<lambda>a. key (?h a)) (set ns)"
      using wf_keys_distinct[OF wf ord] by (simp add: distinct_map)
    have uniq: "(x \<in> set ns \<and> key (?h x) = Some k) = (x = c)" for x
    proof
      assume "x \<in> set ns \<and> key (?h x) = Some k"
      then have "x \<in> set ns" "key (?h x) = key (?h c)" using kc by simp_all
      with inj cn show "x = c" by (simp add: inj_on_def)
    next
      assume "x = c"
      with cn kc show "x \<in> set ns \<and> key (?h x) = Some k" by simp
    qed
    show ?thesis
      using True res wf' by (auto simp: s'_def f1 uniq s1_def)
  next
    case False
    from ks(5)[OF False] have kq: "\<forall>x\<in>set post. lessThan s1 (Some k) (key (nodes s1 x))"
      by (simp add: f1)
    have kp: "\<forall>x\<in>set pre. lessThan s1 (key (nodes s1 x)) (Some k)"
      using ks(2) by (simp add: f1)
    have wfs: "wf_skiplist s1 (pre @ post)" using wf1 ks(1) by simp
    have ord1: "strict_total_order (lessThan s1)" using ord by (simp add: f1)
    have path: "\<forall>j < height (nodes s1) (header s1). upd ! j = Some (pr (nodes s1) (header s1) pre j)"
      by (simp add: f1 upd_def)
    have ulen: "length upd = height (nodes s1) (header s1)"
      by (simp add: f1 upd_def)
    have ins: "Set s (Some k) v coins = Set_insert s1 upd (Some k) v coins"
    proof (cases post)
      case Nil
      then show ?thesis by (simp add: set_eq cand_def)
    next
      case (Cons c r)
      with False ks(4) have "key (?h c) \<noteq> Some k" by simp
      with Cons show ?thesis by (simp add: set_eq cand_def)
    qed
    show ?thesis
      using Set_insert_wf[OF wfs ord1 kp kq path ulen, where v = v and coins = coins] False
      unfolding ins f1 pre_def post_def by auto
  qed
qed

section \<open>Lookup on a well-formed list\<close>

lemma map_fst_contents: "map fst (contents s ns) = keys_of s ns"
  by (simp add: contents_def keys_of_def)

lemma getPath_header_candidate:
  assumes wf: "wf_skiplist s ns" and ord: "strict_total_order (lessThan s)"
  shows "getPath s (header s) None (Some k) =
           Some (case dropWhile (key_lt s (Some k)) ns of [] \<Rightarrow> None | a # r \<Rightarrow> Some a, None)"
proof -
  have e1: "header s # ns = [] @ header s # ns" by simp
  have e2: "case None :: addr option list option of None \<Rightarrow> True
            | Some u \<Rightarrow> height (nodes s) (header s) \<le> length u" by simp
  show ?thesis
    using getPath_from[OF wf ord e1 e2, of k] by simp
qed

lemma Get_wf:
  fixes s :: "('k, 'v) SkipList"
  assumes wf: "wf_skiplist s ns" and ord: "strict_total_order (lessThan s)"
  shows "Get s (Some k) =
           Some (case map_of (contents s ns) (Some k) of None \<Rightarrow> (None, False) | Some v \<Rightarrow> (v, True))"
proof -
  let ?h = "nodes s"
  define pre where "pre = takeWhile (key_lt s (Some k)) ns"
  define post where "post = dropWhile (key_lt s (Some k)) ns"
  note ks = key_split[OF wf ord, of k, folded pre_def post_def]
  have irr: "\<not> lessThan s (Some k) (Some k)"
    using ord by (simp add: strict_total_order_def)
  have npre: "map_of (contents s pre) (Some k) = None"
    using ks(2) irr by (auto simp: map_of_eq_None_iff contents_def)
  have gp: "getPath s (header s) None (Some k) =
           Some (case post of [] \<Rightarrow> None | a # r \<Rightarrow> Some a, None)"
    unfolding post_def by (rule getPath_header_candidate[OF wf ord])
  have cs: "contents s ns = contents s pre @ contents s post"
    by (subst ks(1)) (simp add: contents_def)
  show ?thesis
  proof (cases "Some k \<in> (\<lambda>a. key (?h a)) ` set ns")
    case True
    with ks(4) obtain c r where post: "post = c # r" and kc: "key (?h c) = Some k"
      by (cases post) auto
    have "map_of (contents s ns) (Some k) = Some (val (?h c))"
      unfolding cs using npre by (simp add: map_add_def post contents_def kc)
    then show ?thesis
      by (simp add: Get_def gp post kc)
  next
    case False
    then have "map_of (contents s ns) (Some k) = None"
      by (simp add: map_of_eq_None_iff contents_def image_image)
    moreover have "Get s (Some k) = Some (None, False)"
    proof (cases post)
      case Nil
      then show ?thesis by (simp add: Get_def gp)
    next
      case (Cons c r)
      with False ks(4) have "key (?h c) \<noteq> Some k" by simp
      with Cons show ?thesis by (simp add: Get_def gp)
    qed
    ultimately show ?thesis by simp
  qed
qed

lemma wf_Len: "wf_skiplist s ns \<Longrightarrow> Len s = int (length ns)"
  by (simp add: wf_skiplist_def Len_def)

lemma NewCustomMap_wf: "wf_skiplist (NewCustomMap lt) []"
  by (simp add: wf_skiplist_def NewCustomMap_def height_def fwd_def zero_node_def DefaultMaxLevel_def)

section \<open>The effect of Set on the entries\<close>

lemma map_of_contents_overwrite:
  assumes "\<And>x. key (nodes s' x) = key (nodes s x)"
    and "\<And>x. val (nodes s' x) = (if x \<in> set ns \<and> key (nodes s x) = Some k then v else val (nodes s x))"
    and "Some k \<in> (\<lambda>a. key (nodes s a)) ` set ns"
  shows "map_of (contents s' ns) = (map_of (contents s ns))(Some k \<mapsto> v)"
proof -
  have "map_of (contents s' xs) = (\<lambda>q. if q = Some k \<and> Some k \<in> (\<lambda>a. key (nodes s a)) ` set xs
           then Some v else map_of (contents s xs) q)" if "set xs \<subseteq> set ns" for xs
    using that
  proof (induction xs)
    case Nil
    then show ?case by (simp add: contents_def)
  next
    case (Cons a xs)
    then have IH: "map_of (contents s' xs) = (\<lambda>q. if q = Some k \<and> Some k \<in> (\<lambda>a. key (nodes s a)) ` set xs
           then Some v else map_of (contents s xs) q)" and a: "a \<in> set ns" by auto
    have c: "contents s' (a # xs) = (key (nodes s a), val (nodes s' a)) # contents s' xs"
      "contents s (a # xs) = (key (nodes s a), val (nodes s a)) # contents s xs"
      by (simp_all add: contents_def assms(1))
    show ?case
      unfolding c using a by (auto simp: IH assms(2) fun_eq_iff)
  qed
  from this[of ns] assms(3) show ?thesis
    by (auto simp: fun_eq_iff)
qed

lemma contents_cong:
  "(\<And>x. x \<in> set ns \<Longrightarrow> key (nodes s' x) = key (nodes s x) \<and> val (nodes s' x) = val (nodes s x))
     \<Longrightarrow> contents s' ns = contents s ns"
  by (simp add: contents_def)

lemma Set_abs:
  fixes s :: "('k, 'v) SkipList"
  assumes wf: "wf_skiplist s ns" and ord: "strict_total_order (lessThan s)"
  shows "\<exists>s' ns'. Set s (Some k) v coins = Some s' \<and> wf_skiplist s' ns' \<and>
           lessThan s' = lessThan s \<and>
           map_of (contents s' ns') = (map_of (contents s ns))(Some k \<mapsto> v) \<and>
           (Some k \<in> set (keys_of s ns) \<longrightarrow> ns' = ns \<and> nalloc s' = nalloc s \<and>
               (\<forall>x. key (nodes s' x) = key (nodes s x) \<and>
                    forward (nodes s' x) = forward (nodes s x) \<and>
                    backward (nodes s' x) = backward (nodes s x)))"
proof -
  let ?P = "Some k \<in> (\<lambda>a. key (nodes s a)) ` set ns"
  let ?pre = "takeWhile (key_lt s (Some k)) ns" and ?post = "dropWhile (key_lt s (Some k)) ns"
  have sw: "\<exists>s'. Set s (Some k) v coins = Some s' \<and> lessThan s' = lessThan s \<and> header s' = header s \<and>
     (if ?P
      then wf_skiplist s' ns \<and> nalloc s' = nalloc s \<and>
           (\<forall>x. key (nodes s' x) = key (nodes s x) \<and>
                forward (nodes s' x) = forward (nodes s x) \<and>
                backward (nodes s' x) = backward (nodes s x) \<and>
                val (nodes s' x) = (if x \<in> set ns \<and> key (nodes s x) = Some k then v
                                    else val (nodes s x)))
      else wf_skiplist s' (?pre @ nalloc s # ?post) \<and>
           nalloc s' = Suc (nalloc s) \<and>
           key (nodes s' (nalloc s)) = Some k \<and> val (nodes s' (nalloc s)) = v \<and>
           (\<forall>x. x \<noteq> nalloc s \<longrightarrow> key (nodes s' x) = key (nodes s x) \<and>
                                   val (nodes s' x) = val (nodes s x)))"
    by (rule Set_wf[OF wf ord])
  have Pk: "?P = (Some k \<in> set (keys_of s ns))" by (simp add: keys_of_def)
  show ?thesis
  proof (cases ?P)
    case True
    from sw obtain s' where res: "Set s (Some k) v coins = Some s'" and lt: "lessThan s' = lessThan s"
      and w: "wf_skiplist s' ns" and na: "nalloc s' = nalloc s"
      and c: "\<And>x. key (nodes s' x) = key (nodes s x)"
        "\<And>x. forward (nodes s' x) = forward (nodes s x)"
        "\<And>x. backward (nodes s' x) = backward (nodes s x)"
        "\<And>x. val (nodes s' x) = (if x \<in> set ns \<and> key (nodes s x) = Some k then v
                                    else val (nodes s x))"
      unfolding if_P[OF True] by blast
    have "map_of (contents s' ns) = (map_of (contents s ns))(Some k \<mapsto> v)"
      by (rule map_of_contents_overwrite[OF c(1) c(4) True])
    with res lt w na c(1,2,3) show ?thesis by blast
  next
    case False
    from sw obtain s' where res: "Set s (Some k) v coins = Some s'" and lt: "lessThan s' = lessThan s"
      and w: "wf_skiplist s' (?pre @ nalloc s # ?post)"
      and kn: "key (nodes s' (nalloc s)) = Some k" "val (nodes s' (nalloc s)) = v"
      and c: "\<And>x. x \<noteq> nalloc s \<Longrightarrow> key (nodes s' x) = key (nodes s x) \<and>
                                   val (nodes s' x) = val (nodes s x)"
      unfolding if_not_P[OF False] by blast
    from wf have bound: "\<forall>a\<in>set ns. a < nalloc s" by (simp add: wf_skiplist_def)
    have old: "contents s' xs = contents s xs" if "set xs \<subseteq> set ns" for xs
    proof (rule contents_cong)
      fix x assume "x \<in> set xs"
      with that bound have "x \<noteq> nalloc s" by auto
      then show "key (nodes s' x) = key (nodes s x) \<and> val (nodes s' x) = val (nodes s x)" by (rule c)
    qed
    have sp: "set ?pre \<subseteq> set ns" "set ?post \<subseteq> set ns"
      by (auto dest: set_takeWhileD set_dropWhileD)
    have npre: "map_of (contents s ?pre) (Some k) = None"
      using False by (auto simp: map_of_eq_None_iff contents_def dest: set_takeWhileD)
    have "contents s' (?pre @ nalloc s # ?post) = contents s ?pre @ (Some k, v) # contents s ?post"
      unfolding contents_def map_append list.map kn
      using old[OF sp(1)] old[OF sp(2)] by (simp add: contents_def)
    moreover have "contents s ns = contents s ?pre @ contents s ?post"
      unfolding contents_def map_append[symmetric] by simp
    ultimately have "map_of (contents s' (?pre @ nalloc s # ?post))
        = (map_of (contents s ns))(Some k \<mapsto> v)"
      using npre by (auto simp: fun_eq_iff map_add_def split: option.splits)
    with res lt w False show ?thesis unfolding Pk by blast
  qed
qed

section \<open>Deletion on a well-formed list\<close>

declare Delete_unsplice.simps [simp del] Delete_shrink.simps [simp del]

lemma unspliced_0 [simp]: "unspliced h upd c 0 = h"
  by (rule ext) (simp add: unspliced_def fwd_def height_def map_nth)

lemma height_unspliced [simp]: "height (unspliced h upd c m) x = height h x"
  by (simp add: unspliced_def height_def)

lemma fwd_unspliced:
  "j < height h x \<Longrightarrow> fwd (unspliced h upd c m) j x =
     (if j < m \<and> upd ! j = Some x then fwd h j c else fwd h j x)"
  by (auto simp: unspliced_def fwd_def height_def)

lemma unspliced_fields [simp]:
  "key (unspliced h upd c m x) = key (h x)"
  "val (unspliced h upd c m x) = val (h x)"
  "backward (unspliced h upd c m x) = backward (h x)"
  by (simp_all add: unspliced_def)

lemma unspliced_step:
  assumes "upd ! i = Some p" "i < height h p"
  shows "(unspliced h upd c i)
           (p := (unspliced h upd c i p)\<lparr>forward := (forward (unspliced h upd c i p))[i := fwd h i c]\<rparr>)
         = unspliced h upd c (Suc i)"
proof (rule ext)
  fix x
  let ?l = "(unspliced h upd c i)
           (p := (unspliced h upd c i p)\<lparr>forward := (forward (unspliced h upd c i p))[i := fwd h i c]\<rparr>)"
  have "forward (?l x) = forward (unspliced h upd c (Suc i) x)"
  proof (rule nth_equalityI)
    show "length (forward (?l x)) = length (forward (unspliced h upd c (Suc i) x))"
      by (simp add: unspliced_def)
    fix j assume "j < length (forward (?l x))"
    then have j: "j < height h x" by (auto simp: unspliced_def height_def split: if_splits)
    show "forward (?l x) ! j = forward (unspliced h upd c (Suc i) x) ! j"
      using j assms by (auto simp: unspliced_def height_def nth_list_update less_Suc_eq)
  qed
  moreover have "key (?l x) = key (unspliced h upd c (Suc i) x)"
    "val (?l x) = val (unspliced h upd c (Suc i) x)"
    "backward (?l x) = backward (unspliced h upd c (Suc i) x)"
    by (simp_all add: unspliced_def)
  ultimately show "?l x = unspliced h upd c (Suc i) x"
    by (intro node.equality) simp_all
qed

lemma Delete_unsplice_eq:
  fixes s :: "('k, 'v) SkipList"
  assumes run: "\<forall>j<m. j < length upd \<and> j < height (nodes s) c \<and>
              (\<exists>p. upd ! j = Some p \<and> j < height (nodes s) p \<and> fwd (nodes s) j p = Some c)"
    and mH: "m \<le> height (nodes s) (header s)"
    and stop: "m = height (nodes s) (header s) \<or>
               (m < length upd \<and> (\<exists>p. upd ! m = Some p \<and> m < height (nodes s) p \<and>
                                      fwd (nodes s) m p \<noteq> Some c))"
    and im: "i \<le> m"
  shows "Delete_unsplice (s\<lparr>nodes := unspliced (nodes s) upd c i\<rparr>) upd c (int i)
           = Some (s\<lparr>nodes := unspliced (nodes s) upd c m\<rparr>)"
  using im
proof (induction "m - i" arbitrary: i)
  case 0
  then have i: "i = m" by simp
  have lv: "level (s\<lparr>nodes := unspliced (nodes s) upd c q\<rparr>) = int (height (nodes s) (header s)) - 1" for q
    by (simp add: level_height)
  show ?case
  proof (cases "m = height (nodes s) (header s)")
    case True
    then show ?thesis
      unfolding i by (subst Delete_unsplice.simps) (simp add: lv)
  next
    case False
    with stop obtain p where p: "m < length upd" "upd ! m = Some p" "m < height (nodes s) p"
      "fwd (nodes s) m p \<noteq> Some c" by blast
    then show ?thesis
      unfolding i using mH False
      by (subst Delete_unsplice.simps) (simp add: lv fwd_unspliced)
  qed
next
  case (Suc d)
  then have lt: "i < m" by simp
  with run obtain p where p: "i < length upd" "i < height (nodes s) c" "upd ! i = Some p"
      "i < height (nodes s) p" "fwd (nodes s) i p = Some c" by blast
  let ?s = "s\<lparr>nodes := unspliced (nodes s) upd c i\<rparr>"
  have lv: "level ?s = int (height (nodes s) (header s)) - 1"
    by (simp add: level_height)
  have i1: "int i + 1 = int (Suc i)" by simp
  have "Delete_unsplice ?s upd c (int i)
      = Delete_unsplice (s\<lparr>nodes := unspliced (nodes s) upd c (Suc i)\<rparr>) upd c (int i + 1)"
    using lt mH p
    by (subst Delete_unsplice.simps)
       (simp add: lv fwd_unspliced unspliced_step[OF p(3,4)] del: of_nat_Suc)
  also have "\<dots> = Some (s\<lparr>nodes := unspliced (nodes s) upd c m\<rparr>)"
    unfolding i1 using Suc.hyps(2) lt by (intro Suc.hyps(1)) auto
  finally show ?case .
qed

lemma length_nodes_swap:
  "s\<lparr>length_sl := l, nodes := X\<rparr> = s\<lparr>nodes := X, length_sl := l\<rparr>"
  by (cases s) simp

lemma Delete_shrink_length:
  "Delete_shrink (s\<lparr>length_sl := l\<rparr>) = map_option (\<lambda>t. t\<lparr>length_sl := l\<rparr>) (Delete_shrink s)"
proof (induction s rule: Delete_shrink.induct)
  case (1 s)
  show ?case
  proof (cases "level s > 0")
    case False
    then show ?thesis
      by (subst (1 2) Delete_shrink.simps) (simp add: level_def)
  next
    case True
    show ?thesis
    proof (cases "get_forward (nodes s) (header s) (level s)")
      case None
      with True show ?thesis
        by (subst (1 2) Delete_shrink.simps) (simp add: level_def)
    next
      case (Some nx)
      show ?thesis
      proof (cases nx)
        case (Some n)
        with True \<open>get_forward (nodes s) (header s) (level s) = Some nx\<close> show ?thesis
          by (subst (1 2) Delete_shrink.simps) (simp add: level_def)
      next
        case None
        note g = \<open>get_forward (nodes s) (header s) (level s) = Some nx\<close>[unfolded None]
        show ?thesis
        proof (cases "slice_to (forward (nodes s (header s))) (level s)")
          case None
          with True g show ?thesis
            by (subst (1 2) Delete_shrink.simps) (simp add: level_def)
        next
          case (Some f)
          let ?X = "(nodes s)(header s := (nodes s (header s))\<lparr>forward := f\<rparr>)"
          have L: "Delete_shrink (s\<lparr>length_sl := l\<rparr>) = Delete_shrink (s\<lparr>nodes := ?X\<rparr>\<lparr>length_sl := l\<rparr>)"
            using True g Some by (subst Delete_shrink.simps) (simp add: level_def length_nodes_swap)
          have R: "Delete_shrink s = Delete_shrink (s\<lparr>nodes := ?X\<rparr>)"
            using True g Some by (subst Delete_shrink.simps) (simp add: level_def)
          show ?thesis
            unfolding L R
            by (rule "1.IH"[OF True \<open>get_forward (nodes s) (header s) (level s) = Some nx\<close> None Some])
        qed
      qed
    qed
  qed
qed

lemma shrink_step_wf:
  fixes s :: "('k, 'v) SkipList"
  assumes wf: "wf_skiplist s ns" and lv: "1 < height (nodes s) (header s)"
    and top: "fwd (nodes s) (height (nodes s) (header s) - 1) (header s) = None"
  shows "wf_skiplist (s\<lparr>nodes := (nodes s)(header s :=
           (nodes s (header s))\<lparr>forward := take (height (nodes s) (header s) - 1)
                                                (forward (nodes s (header s)))\<rparr>)\<rparr>) ns"
    (is "wf_skiplist ?s' ns")
proof -
  let ?h = "nodes s" and ?h' = "nodes ?s'" and ?hd = "header s"
  let ?H = "height ?h ?hd"
  from wf have dist: "distinct (?hd # ns)"
    and nk: "\<forall>a\<in>set ns. key (?h a) \<noteq> None \<and> 0 < height ?h a \<and> height ?h a \<le> ?H"
    and ch: "\<forall>i < ?H. chainf (fwd ?h i) (?hd # tower ?h i ns)"
    by (simp_all add: wf_skiplist_def)
  have nhd: "x \<noteq> ?hd" if "x \<in> set ns" for x using that dist by auto
  have "chainf (fwd ?h (?H - 1)) (?hd # tower ?h (?H - 1) ns)"
    using ch lv by simp
  with top have te: "tower ?h (?H - 1) ns = []"
    by (cases "tower ?h (?H - 1) ns") simp_all
  have low: "height ?h a \<le> ?H - 1" if "a \<in> set ns" for a
  proof (rule ccontr)
    assume "\<not> height ?h a \<le> ?H - 1"
    with that have "a \<in> set (tower ?h (?H - 1) ns)" by (simp add: set_tower)
    with te show False by simp
  qed
  have hh: "height ?h' ?hd = ?H - 1"
    using lv by (simp add: height_def)
  have hx: "height ?h' x = height ?h x" if "x \<in> set ns" for x
    using nhd[OF that] by (simp add: height_def)
  have tw: "tower ?h' i ns = tower ?h i ns" for i
    by (rule tower_cong) (rule hx)
  have c8: "chainf (fwd ?h' i) (?hd # tower ?h i ns)" if i: "i < ?H - 1" for i
  proof -
    have "chainf (fwd ?h' i) (?hd # tower ?h i ns) = chainf (fwd ?h i) (?hd # tower ?h i ns)"
    proof (rule chainf_cong)
      fix x assume "x \<in> set (?hd # tower ?h i ns)"
      then consider "x = ?hd" | "x \<in> set ns" by (auto simp: set_tower)
      then show "fwd ?h' i x = fwd ?h i x"
      proof cases
        case 1
        then show ?thesis using i by (simp add: fwd_def)
      next
        case 2
        then show ?thesis using nhd by (simp add: fwd_def)
      qed
    qed
    with ch i show ?thesis by simp
  qed
  have fields: "header ?s' = ?hd" "lessThan ?s' = lessThan s" "footer ?s' = footer s"
    "length_sl ?s' = length_sl s" "update ?s' = update s" "nalloc ?s' = nalloc s"
    by simp_all
  have kb: "key (?h' x) = key (?h x)" "backward (?h' x) = backward (?h x)" for x
    by simp_all
  have nsn: "\<forall>a\<in>set ns. height ?h' a = height ?h a \<and> height ?h a \<le> ?H - 1"
    using hx low by simp
  show ?thesis
    using wf lv c8 nsn
    unfolding wf_skiplist_def fields kb hh tw
    by auto
qed

lemma Delete_shrink_wf:
  fixes s :: "('k, 'v) SkipList"
  assumes "wf_skiplist s ns"
  shows "\<exists>s'. Delete_shrink s = Some s' \<and> wf_skiplist s' ns \<and>
           header s' = header s \<and> lessThan s' = lessThan s \<and> nalloc s' = nalloc s \<and>
           length_sl s' = length_sl s \<and>
           (\<forall>x. key (nodes s' x) = key (nodes s x) \<and> val (nodes s' x) = val (nodes s x))"
  using assms
proof (induction s rule: Delete_shrink.induct)
  case (1 s)
  let ?h = "nodes s" and ?hd = "header s"
  let ?H = "height ?h ?hd"
  from "1.prems" have hh: "0 < ?H" by (simp add: wf_skiplist_def)
  show ?case
  proof (cases "level s > 0")
    case False
    with "1.prems" show ?thesis
      by (subst Delete_shrink.simps) simp
  next
    case True
    then have lv: "1 < ?H" by (simp add: level_height)
    have li: "level s = int (?H - 1)" using hh by (simp add: level_height)
    have "get_forward ?h ?hd (int (?H - 1)) = Some (fwd ?h (?H - 1) ?hd)"
      using hh by (subst get_forward_int) simp
    then have g: "get_forward ?h ?hd (level s) = Some (fwd ?h (?H - 1) ?hd)"
      unfolding li .
    show ?thesis
    proof (cases "fwd ?h (?H - 1) ?hd")
      case (Some n)
      with True g "1.prems" show ?thesis
        by (subst Delete_shrink.simps) simp
    next
      case None
      let ?f = "take (?H - 1) (forward (?h ?hd))"
      let ?s' = "s\<lparr>nodes := ?h(?hd := (?h ?hd)\<lparr>forward := ?f\<rparr>)\<rparr>"
      have sl: "slice_to (forward (?h ?hd)) (level s) = Some ?f"
        unfolding li by (simp add: slice_to_def height_def)
      have g': "get_forward ?h ?hd (level s) = Some None" using g None by simp
      have wf': "wf_skiplist ?s' ns"
        using "1.prems" lv None by (rule shrink_step_wf)
      from "1.IH"[OF True g' refl sl wf'] obtain s'' where
        "Delete_shrink ?s' = Some s''" "wf_skiplist s'' ns" "header s'' = header s"
        "lessThan s'' = lessThan s" "nalloc s'' = nalloc s" "length_sl s'' = length_sl s"
        "\<forall>x. key (nodes s'' x) = key (?h x) \<and> val (nodes s'' x) = val (?h x)"
        by auto
      moreover have "Delete_shrink s = Delete_shrink ?s'"
        using True g' sl by (subst Delete_shrink.simps) simp
      ultimately show ?thesis by simp
    qed
  qed
qed

lemma remove_wf:
  fixes s s' :: "('k, 'v) SkipList"
  assumes wf: "wf_skiplist s (pre @ c # r)"
    and hdr: "header s' = header s" and lt: "lessThan s' = lessThan s"
    and upd: "length (update s') = length (update s)"
    and na: "nalloc s' = nalloc s"
    and ft: "footer s' = (if pre @ r = [] then None else Some (last (pre @ r)))"
    and ln: "length_sl s' = length_sl s - 1"
    and K: "\<And>x. key (nodes s' x) = key (nodes s x)"
    and Ht: "\<And>x. height (nodes s') x = height (nodes s) x"
    and B: "\<And>x. x \<in> set (header s # pre @ r) \<Longrightarrow> backward (nodes s' x) =
                (if r \<noteq> [] \<and> x = hd r then backward (nodes s c) else backward (nodes s x))"
    and F: "\<And>x j. x \<in> set (header s # pre @ r) \<Longrightarrow> j < height (nodes s) x \<Longrightarrow>
               fwd (nodes s') j x =
                 (if j < height (nodes s) c \<and> x = pr (nodes s) (header s) pre j
                  then fwd (nodes s) j c else fwd (nodes s) j x)"
  shows "wf_skiplist s' (pre @ r)"
proof -
  let ?h = "nodes s" and ?h' = "nodes s'" and ?hd = "header s"
  let ?ns = "pre @ c # r"
  from wf have dist: "distinct (?hd # ?ns)" and bound: "\<forall>a\<in>set (?hd # ?ns). a < nalloc s"
    and hk: "key (?h ?hd) = None" and hb: "backward (?h ?hd) = None"
    and hh: "0 < height ?h ?hd" "height ?h ?hd \<le> length (update s)"
    and ul: "length (update s) = nat (DefaultMaxLevel + 1)"
    and nk: "\<forall>a\<in>set ?ns. key (?h a) \<noteq> None \<and> 0 < height ?h a \<and> height ?h a \<le> height ?h ?hd"
    and srt: "sorted_wrt (\<lambda>a b. lessThan s (key (?h a)) (key (?h b))) ?ns"
    and ch: "\<forall>i < height ?h ?hd. chainf (fwd ?h i) (?hd # tower ?h i ?ns)"
    and bk: "backf (\<lambda>a. backward (?h a)) None ?ns"
    and len: "length_sl s = int (length ?ns)"
    by (simp_all add: wf_skiplist_def)
  have tw: "tower ?h' j xs = tower ?h j xs" for j xs
    by (rule tower_cong) (rule Ht)
  have c1: "distinct (header s' # pre @ r)"
    using dist by (auto simp: hdr)
  have c2: "\<forall>a\<in>set (header s' # pre @ r). a < nalloc s'"
    using bound by (auto simp: hdr na)
  have c3: "key (?h' (header s')) = None"
    using hk by (simp add: hdr K)
  have "r = [] \<or> ?hd \<noteq> hd r"
    using dist by (cases r) auto
  then have c4: "backward (?h' (header s')) = None"
    using hb B[of ?hd] by (auto simp: hdr)
  have c5: "0 < height ?h' (header s')" "height ?h' (header s') \<le> length (update s')"
       "length (update s') = nat (DefaultMaxLevel + 1)"
    using hh ul by (simp_all add: hdr Ht upd)
  have c6: "\<forall>a\<in>set (pre @ r). key (?h' a) \<noteq> None \<and> 0 < height ?h' a \<and>
                 height ?h' a \<le> height ?h' (header s')"
    using nk by (simp add: K Ht hdr)
  have c7: "sorted_wrt (\<lambda>a b. lessThan s' (key (?h' a)) (key (?h' b))) (pre @ r)"
    using srt by (simp add: lt K sorted_wrt_append)
  have c8: "\<forall>i < height ?h' (header s'). chainf (fwd ?h' i) (header s' # tower ?h' i (pre @ r))"
  proof (intro allI impI)
    fix j assume "j < height ?h' (header s')"
    then have j: "j < height ?h ?hd" by (simp add: hdr Ht)
    have old: "chainf (fwd ?h j) (?hd # tower ?h j ?ns)"
      using ch j by simp
    let ?T = "tower ?h j r"
    have sub: "set (?hd # tower ?h j pre @ ?T) \<subseteq> set (?hd # pre @ r)"
      by (auto simp: set_tower)
    have hts: "\<And>x. x \<in> set (?hd # tower ?h j pre @ ?T) \<Longrightarrow> j < height ?h x"
      using j by (auto simp: set_tower)
    show "chainf (fwd ?h' j) (header s' # tower ?h' j (pre @ r))"
    proof (cases "j < height ?h c")
      case True
      let ?p = "pr ?h ?hd pre j"
      define A where "A = butlast (?hd # tower ?h j pre)"
      have sp: "A @ [?p] = ?hd # tower ?h j pre"
        unfolding A_def by (rule pr_split[symmetric])
      have eq: "A @ ?p # c # ?T = ?hd # tower ?h j ?ns"
      proof -
        have "A @ ?p # c # ?T = (A @ [?p]) @ c # ?T" by simp
        then show ?thesis unfolding sp using True by (simp add: tower_Cons)
      qed
      have eq2: "A @ ?p # ?T = ?hd # tower ?h j pre @ ?T"
      proof -
        have "A @ ?p # ?T = (A @ [?p]) @ ?T" by simp
        then show ?thesis unfolding sp by simp
      qed
      have old': "chainf (fwd ?h j) (A @ ?p # c # ?T)"
        unfolding eq by (rule old)
      have rem: "chainf (fwd ?h' j) (A @ ?p # ?T)"
      proof (rule chainf_remove[OF old'])
        show "distinct (A @ ?p # c # ?T)"
          unfolding eq using dist by (auto simp: tower_def)
        show "fwd ?h' j x = fwd ?h j x" if "x \<in> set (A @ ?p # ?T)" "x \<noteq> ?p" for x
        proof -
          from that(1) have "x \<in> set (?hd # pre @ r)" "j < height ?h x"
            unfolding eq2 using sub hts by blast+
          then show ?thesis using that(2) by (simp add: F)
        qed
        show "fwd ?h' j ?p = fwd ?h j c"
        proof -
          have "?p \<in> set (A @ ?p # ?T)" by simp
          then have "?p \<in> set (?hd # pre @ r)" "j < height ?h ?p"
            unfolding eq2 using sub hts by blast+
          then show ?thesis using True by (simp add: F)
        qed
      qed
      show ?thesis
        unfolding hdr tw tower_append eq2[symmetric] by (rule rem)
    next
      case False
      have e: "tower ?h j ?ns = tower ?h j pre @ ?T"
        using False by (simp add: tower_Cons)
      have old2: "chainf (fwd ?h j) (?hd # tower ?h j pre @ ?T)"
        using old unfolding e .
      have "chainf (fwd ?h' j) (?hd # tower ?h j pre @ ?T)
          = chainf (fwd ?h j) (?hd # tower ?h j pre @ ?T)"
      proof (rule chainf_cong)
        fix x assume x: "x \<in> set (?hd # tower ?h j pre @ ?T)"
        then have "x \<in> set (?hd # pre @ r)" "j < height ?h x"
          using sub hts by blast+
        then show "fwd ?h' j x = fwd ?h j x" using False by (simp add: F)
      qed
      with old2 show ?thesis unfolding hdr tw tower_append by simp
    qed
  qed
  have c9: "backf (\<lambda>a. backward (?h' a)) None (pre @ r)"
  proof -
    have dpr: "distinct (pre @ c # r)" using dist by simp
    let ?lp = "if pre = [] then None else Some (last pre)"
    from bk have b0: "backf (\<lambda>a. backward (?h a)) None pre"
      and bc: "backward (?h c) = ?lp" and br: "backf (\<lambda>a. backward (?h a)) (Some c) r"
      by (simp_all add: backf_append)
    have "backf (\<lambda>a. backward (?h' a)) None pre = backf (\<lambda>a. backward (?h a)) None pre"
    proof (rule backf_cong)
      fix x assume x: "x \<in> set pre"
      then have "r = [] \<or> x \<noteq> hd r" using dpr by (cases r) auto
      with x show "backward (?h' x) = backward (?h x)" using B[of x] by auto
    qed
    with b0 have b1: "backf (\<lambda>a. backward (?h' a)) None pre" by simp
    have b2: "backf (\<lambda>a. backward (?h' a)) ?lp r"
    proof (cases r)
      case Nil
      then show ?thesis by simp
    next
      case (Cons q r')
      have "backf (\<lambda>a. backward (?h' a)) (Some q) r' = backf (\<lambda>a. backward (?h a)) (Some q) r'"
      proof (rule backf_cong)
        fix x assume x: "x \<in> set r'"
        then have "x \<noteq> hd r" using dpr Cons by auto
        with x Cons show "backward (?h' x) = backward (?h x)" using B[of x] by auto
      qed
      moreover have "backf (\<lambda>a. backward (?h a)) (Some q) r'"
        using br Cons by simp
      moreover have "backward (?h' q) = ?lp"
        using B[of q] Cons bc by simp
      ultimately show ?thesis using Cons by simp
    qed
    show ?thesis
      using b1 b2 by (simp add: backf_append)
  qed
  have c11: "length_sl s' = int (length (pre @ r))"
    by (simp add: ln len)
  show ?thesis
    unfolding wf_skiplist_def
    using c1 c2 c3 c4 c5 c6 c7 c8 c9 ft c11 by blast
qed

lemma wf_chain_pred:
  assumes wf: "wf_skiplist s (pre @ post)" and j: "j < height (nodes s) (header s)"
  shows "fwd (nodes s) j (pr (nodes s) (header s) pre j)
           = (case tower (nodes s) j post of [] \<Rightarrow> None | b # r \<Rightarrow> Some b)"
proof -
  let ?h = "nodes s" and ?hd = "header s"
  define A where "A = butlast (?hd # tower ?h j pre)"
  have sp: "A @ [pr ?h ?hd pre j] = ?hd # tower ?h j pre"
    unfolding A_def by (rule pr_split[symmetric])
  have "A @ pr ?h ?hd pre j # tower ?h j post = (A @ [pr ?h ?hd pre j]) @ tower ?h j post" by simp
  then have eq: "A @ pr ?h ?hd pre j # tower ?h j post = ?hd # tower ?h j (pre @ post)"
    unfolding sp by simp
  have "chainf (fwd ?h j) (?hd # tower ?h j (pre @ post))"
    using wf j by (simp add: wf_skiplist_def)
  then have "chainf (fwd ?h j) (A @ pr ?h ?hd pre j # tower ?h j post)"
    unfolding eq .
  then show ?thesis by (rule chainf_next)
qed

lemma Delete_wf:
  fixes s :: "('k, 'v) SkipList"
  assumes wf: "wf_skiplist s ns" and ord: "strict_total_order (lessThan s)"
  shows "\<exists>s' res. Delete s (Some k) = Some (s', res) \<and> lessThan s' = lessThan s \<and>
      header s' = header s \<and> nalloc s' = nalloc s \<and>
      (\<forall>x. key (nodes s' x) = key (nodes s x) \<and> val (nodes s' x) = val (nodes s x)) \<and>
      (if Some k \<in> (\<lambda>a. key (nodes s a)) ` set ns
       then \<exists>pre c r. ns = pre @ c # r \<and> key (nodes s c) = Some k \<and>
              res = (val (nodes s c), True) \<and> wf_skiplist s' (pre @ r)
       else res = (None, False) \<and> wf_skiplist s' ns \<and> nodes s' = nodes s \<and>
            length_sl s' = length_sl s \<and> footer s' = footer s)"
proof -
  let ?h = "nodes s" and ?hd = "header s"
  let ?H = "height ?h ?hd"
  define pre where "pre = takeWhile (key_lt s (Some k)) ns"
  define post where "post = dropWhile (key_lt s (Some k)) ns"
  note ks = key_split[OF wf ord, of k, folded pre_def post_def]
  from wf have hh: "0 < ?H" "?H \<le> length (update s)"
    by (simp_all add: wf_skiplist_def)
  define upd0 where "upd0 = take ?H (update s)"
  have l0: "length upd0 = ?H" using hh by (simp add: upd0_def)
  have sl: "slice_to (update s) (level s + 1) = Some upd0"
    using hh by (simp add: slice_to_def level_height upd0_def)
  define upd where "upd = map (\<lambda>j. Some (pr ?h ?hd pre j)) [0..<?H]"
  define cand where "cand = (case post of [] \<Rightarrow> None | a # r \<Rightarrow> Some a)"
  have mp: "map (\<lambda>j. if j < ?H
                     then Some (last (?hd # tower ?h j (takeWhile (key_lt s (Some k)) ns)))
                     else upd0 ! j) [0..<length upd0] = upd"
    unfolding upd_def pr_def pre_def l0 by (rule map_cong) simp_all
  have gp: "getPath s ?hd (Some upd0) (Some k) = Some (cand, Some upd)"
  proof -
    have e1: "header s # ns = [] @ ?hd # ns" by simp
    have e2: "case Some upd0 of None \<Rightarrow> True | Some u \<Rightarrow> ?H \<le> length u"
      by (simp add: l0)
    have "getPath s ?hd (Some upd0) (Some k) =
           Some (case dropWhile (key_lt s (Some k)) ns of [] \<Rightarrow> None | a # r \<Rightarrow> Some a,
                 map_option (\<lambda>u. map (\<lambda>j. if j < ?H
                     then Some (last (?hd # tower ?h j (takeWhile (key_lt s (Some k)) ns)))
                     else u ! j) [0..<length u]) (Some upd0))"
      by (rule getPath_from[OF wf ord e1 e2])
    then show ?thesis
      unfolding cand_def post_def option.map mp .
  qed
  define s1 where "s1 = store_update s upd"
  have wf1: "wf_skiplist s1 ns" unfolding s1_def using wf by (rule store_update_wf)
  have f1: "nodes s1 = ?h" "header s1 = ?hd" "lessThan s1 = lessThan s" "nalloc s1 = nalloc s"
    "footer s1 = footer s" "length_sl s1 = length_sl s" "length (update s1) = length (update s)"
    by (simp_all add: s1_def)
  show ?thesis
  proof (cases "Some k \<in> (\<lambda>a. key (?h a)) ` set ns")
    case False
    have "Delete s (Some k) = Some (s1, None, False)"
    proof (cases post)
      case Nil
      then show ?thesis by (simp add: Delete_def sl gp cand_def s1_def)
    next
      case (Cons c r)
      with False ks(4) have "key (?h c) \<noteq> Some k" by simp
      with Cons show ?thesis by (simp add: Delete_def sl gp cand_def s1_def[symmetric] f1)
    qed
    with False wf1 show ?thesis by (simp add: f1)
  next
    case True
    with ks(4) obtain c r where post: "post = c # r" and kc: "key (?h c) = Some k"
      by (cases post) auto
    have ns: "ns = pre @ c # r" using ks(1) post by simp
    have wfs: "wf_skiplist s (pre @ c # r)" using wf ns by simp
    from wfs have dist: "distinct (?hd # pre @ c # r)"
      and nk: "\<forall>a\<in>set (pre @ c # r). key (?h a) \<noteq> None \<and> 0 < height ?h a \<and> height ?h a \<le> ?H"
      and bk: "backf (\<lambda>a. backward (?h a)) None (pre @ c # r)"
      and ftr: "footer s = Some (last (pre @ c # r))"
      by (simp_all add: wf_skiplist_def)
    define previous where "previous = (if pre = [] then None else Some (last pre))"
    have bc: "backward (?h c) = previous"
      using bk by (simp add: backf_append previous_def)
    define m where "m = height ?h c"
    have mH: "m \<le> ?H" "0 < m" using nk by (simp_all add: m_def)
    have fc: "(footer s1 = Some c) = (r = [])"
      using dist by (cases r rule: rev_cases) (auto simp: f1 ftr)
    define s2 where "s2 = (if footer s1 = Some c then s1\<lparr>footer := backward (nodes s1 c)\<rparr> else s1)"
    have n2: "nodes s2 = ?h" "header s2 = ?hd" "lessThan s2 = lessThan s" "nalloc s2 = nalloc s"
      "length_sl s2 = length_sl s" "length (update s2) = length (update s)"
      by (simp_all add: s2_def f1)
    have ft2: "footer s2 = (if pre @ r = [] then None else Some (last (pre @ r)))"
      using fc by (auto simp: s2_def f1 bc previous_def ftr)
    have nn: "node_next (?h c) = (case r of [] \<Rightarrow> None | b # r' \<Rightarrow> Some b)"
    proof -
      have "wf_skiplist s ((pre @ [c]) @ r)" using wfs by simp
      then have "fwd ?h 0 (last (?hd # pre @ [c])) = (case r of [] \<Rightarrow> None | b # r' \<Rightarrow> Some b)"
        by (rule wf_level0_next)
      then show ?thesis using mH by (simp add: node_next_def fwd_def height_def m_def)
    qed
    define s3 where "s3 = (case node_next (nodes s2 c) of None \<Rightarrow> s2
        | Some n \<Rightarrow> s2\<lparr>nodes := (nodes s2)(n := (nodes s2 n)\<lparr>backward := backward (nodes s1 c)\<rparr>)\<rparr>)"
    have n3: "header s3 = ?hd" "lessThan s3 = lessThan s" "nalloc s3 = nalloc s"
      "length_sl s3 = length_sl s" "length (update s3) = length (update s)" "footer s3 = footer s2"
      by (cases r; simp add: s3_def n2 nn)+
    have k3: "key (nodes s3 x) = key (?h x)" "val (nodes s3 x) = val (?h x)"
      "forward (nodes s3 x) = forward (?h x)" for x
      by (cases r; simp add: s3_def n2 nn)+
    have h3: "height (nodes s3) x = height ?h x" "fwd (nodes s3) j x = fwd ?h j x" for x j
      by (simp_all add: height_def fwd_def k3)
    have b3: "backward (nodes s3 x) = (if r \<noteq> [] \<and> x = hd r then backward (?h c) else backward (?h x))" for x
      by (cases r) (simp_all add: s3_def n2 nn f1)
    have updj: "upd ! j = Some (pr ?h ?hd pre j)" "j < length upd" if "j < ?H" for j
      using that by (simp_all add: upd_def)
    have prh: "j < height ?h (pr ?h ?hd pre j)" if "j < ?H" for j
      using that by (rule pr_height)
    have prc: "pr ?h ?hd pre j \<noteq> c" for j
      using pr_in[of ?h ?hd pre j] dist by (auto simp: set_tower)
    have us: "Delete_unsplice (s3\<lparr>nodes := unspliced (nodes s3) upd c 0\<rparr>) upd c (int 0)
           = Some (s3\<lparr>nodes := unspliced (nodes s3) upd c m\<rparr>)"
    proof (rule Delete_unsplice_eq)
      show "\<forall>j<m. j < length upd \<and> j < height (nodes s3) c \<and>
              (\<exists>p. upd ! j = Some p \<and> j < height (nodes s3) p \<and> fwd (nodes s3) j p = Some c)"
      proof (intro allI impI)
        fix j assume jm: "j < m"
        then have j: "j < ?H" using mH by simp
        have "fwd ?h j (pr ?h ?hd pre j) = (case tower ?h j (c # r) of [] \<Rightarrow> None | b # r \<Rightarrow> Some b)"
          using wfs j by (rule wf_chain_pred)
        then have "fwd ?h j (pr ?h ?hd pre j) = Some c"
          using jm by (simp add: tower_Cons m_def)
        then show "j < length upd \<and> j < height (nodes s3) c \<and>
              (\<exists>p. upd ! j = Some p \<and> j < height (nodes s3) p \<and> fwd (nodes s3) j p = Some c)"
          using updj[OF j] prh[OF j] jm by (simp add: h3 m_def)
      qed
      show "m \<le> height (nodes s3) (header s3)" using mH by (simp add: h3 n3)
      show "m = height (nodes s3) (header s3) \<or>
               (m < length upd \<and> (\<exists>p. upd ! m = Some p \<and> m < height (nodes s3) p \<and>
                                      fwd (nodes s3) m p \<noteq> Some c))"
      proof (cases "m = ?H")
        case True
        then show ?thesis by (simp add: h3 n3)
      next
        case False
        then have j: "m < ?H" using mH by simp
        have "fwd ?h m (pr ?h ?hd pre m) = (case tower ?h m (c # r) of [] \<Rightarrow> None | b # r \<Rightarrow> Some b)"
          using wfs j by (rule wf_chain_pred)
        moreover have "tower ?h m (c # r) = tower ?h m r" by (simp add: tower_Cons m_def)
        moreover have "c \<notin> set (tower ?h m r)" using dist by (simp add: set_tower)
        ultimately have "fwd ?h m (pr ?h ?hd pre m) \<noteq> Some c"
          by (cases "tower ?h m r") auto
        then show ?thesis
          using updj[OF j] prh[OF j] by (simp add: h3)
      qed
      show "0 \<le> m" by simp
    qed
    define s4 where "s4 = s3\<lparr>nodes := unspliced (nodes s3) upd c m\<rparr>"
    have us': "Delete_unsplice s3 upd c 0 = Some s4"
      using us by (simp add: s4_def)
    define s4' where "s4' = s4\<lparr>length_sl := length_sl s - 1\<rparr>"
    have wf4: "wf_skiplist s4' (pre @ r)"
    proof (rule remove_wf[OF wfs])
      show "header s4' = ?hd" "lessThan s4' = lessThan s" "length (update s4') = length (update s)"
        "nalloc s4' = nalloc s" "length_sl s4' = length_sl s - 1"
        by (simp_all add: s4'_def s4_def n3)
      show "footer s4' = (if pre @ r = [] then None else Some (last (pre @ r)))"
        by (simp add: s4'_def s4_def n3 ft2)
      show "key (nodes s4' x) = key (?h x)" for x
        by (simp add: s4'_def s4_def k3)
      show "height (nodes s4') x = height ?h x" for x
        by (simp add: s4'_def s4_def h3)
      show "backward (nodes s4' x) = (if r \<noteq> [] \<and> x = hd r then backward (?h c) else backward (?h x))"
        if "x \<in> set (?hd # pre @ r)" for x
        by (simp add: s4'_def s4_def b3)
      show "fwd (nodes s4') j x =
                 (if j < height ?h c \<and> x = pr ?h ?hd pre j then fwd ?h j c else fwd ?h j x)"
        if x: "x \<in> set (?hd # pre @ r)" and j: "j < height ?h x" for x j
      proof -
        have "height ?h x \<le> ?H" using x nk by auto
        with j have jH: "j < ?H" by simp
        have "fwd (nodes s4') j x = (if j < m \<and> upd ! j = Some x then fwd ?h j c else fwd ?h j x)"
          using j by (simp add: s4'_def s4_def fwd_unspliced h3)
        then show ?thesis
          using updj(1)[OF jH] by (auto simp: m_def)
      qed
    qed
    from Delete_shrink_wf[OF wf4] obtain s5 where
      sh: "Delete_shrink s4' = Some s5" and wf5: "wf_skiplist s5 (pre @ r)"
      and f5: "header s5 = header s4'" "lessThan s5 = lessThan s4'" "nalloc s5 = nalloc s4'"
        "length_sl s5 = length_sl s4'"
      and k5: "\<And>x. key (nodes s5 x) = key (nodes s4' x) \<and> val (nodes s5 x) = val (nodes s4' x)"
      by blast
    have s44: "s4 = s4'\<lparr>length_sl := length_sl s\<rparr>"
      by (simp add: s4'_def s4_def n3)
    have sh4: "Delete_shrink s4 = Some (s5\<lparr>length_sl := length_sl s\<rparr>)"
      unfolding s44 Delete_shrink_length sh by simp
    have fin: "s5\<lparr>length_sl := length_sl s\<rparr>\<lparr>length_sl := length_sl (s5\<lparr>length_sl := length_sl s\<rparr>) - 1\<rparr> = s5"
      using f5(4) by (simp add: s4'_def)
    have nk1: "(key (nodes s1 c) \<noteq> Some k) = False" by (simp add: f1 kc)
    have cc: "cand = Some c" by (simp add: cand_def post)
    have res: "Delete s (Some k) = Some (s5, val (?h c), True)"
      unfolding Delete_def Let_def
      by (simp only: option.distinct if_False sl option.case gp prod.case s1_def[symmetric] cc nk1
            s2_def[symmetric] s3_def[symmetric] us' sh4 fin)
         (simp add: k5 s4'_def s4_def k3)
    have out: "lessThan s5 = lessThan s" "header s5 = ?hd" "nalloc s5 = nalloc s"
      "\<And>x. key (nodes s5 x) = key (?h x) \<and> val (nodes s5 x) = val (?h x)"
      by (simp_all add: f5 k5 s4'_def s4_def n3 k3)
    show ?thesis
      using True res out ns kc wf5 by auto
  qed
qed

section \<open>Operation sequences refine the reference model\<close>

lemma Set_None [simp]: "Set s None v coins = Some s"
  by (simp add: Set_def)

lemma Delete_None [simp]: "Delete s None = Some (s, None, False)"
  by (simp add: Delete_def)

lemma map_of_remove_middle:
  assumes "k \<notin> fst ` set A" "k \<notin> fst ` set B"
  shows "map_of (A @ B) = (map_of (A @ (k, v) # B))(k := None)"
    and "map_of (A @ (k, v) # B) k = Some v"
proof -
  have a: "map_of A k = None" "map_of B k = None"
    using assms by (simp_all add: map_of_eq_None_iff)
  show "map_of (A @ B) = (map_of (A @ (k, v) # B))(k := None)"
    using a by (auto simp: fun_eq_iff map_add_def split: option.splits)
  show "map_of (A @ (k, v) # B) k = Some v"
    using a by (simp add: map_add_def)
qed

lemma Delete_abs:
  fixes s :: "('k, 'v) SkipList"
  assumes wf: "wf_skiplist s ns" and ord: "strict_total_order (lessThan s)"
  shows "\<exists>s' ns' res. Delete s (Some k) = Some (s', res) \<and> wf_skiplist s' ns' \<and>
           lessThan s' = lessThan s \<and>
           map_of (contents s' ns') = (map_of (contents s ns))(Some k := None) \<and>
           res = (case map_of (contents s ns) (Some k) of None \<Rightarrow> (None, False)
                  | Some v \<Rightarrow> (v, True)) \<and>
           (Some k \<notin> set (keys_of s ns) \<longrightarrow> ns' = ns \<and> nodes s' = nodes s \<and>
               length_sl s' = length_sl s \<and> footer s' = footer s \<and> header s' = header s)"
proof -
  let ?P = "Some k \<in> (\<lambda>a. key (nodes s a)) ` set ns"
  have Pk: "?P = (Some k \<in> set (keys_of s ns))" by (simp add: keys_of_def)
  have dw: "\<exists>s' res. Delete s (Some k) = Some (s', res) \<and> lessThan s' = lessThan s \<and>
      header s' = header s \<and> nalloc s' = nalloc s \<and>
      (\<forall>x. key (nodes s' x) = key (nodes s x) \<and> val (nodes s' x) = val (nodes s x)) \<and>
      (if ?P
       then \<exists>pre c r. ns = pre @ c # r \<and> key (nodes s c) = Some k \<and>
              res = (val (nodes s c), True) \<and> wf_skiplist s' (pre @ r)
       else res = (None, False) \<and> wf_skiplist s' ns \<and> nodes s' = nodes s \<and>
            length_sl s' = length_sl s \<and> footer s' = footer s)"
    by (rule Delete_wf[OF wf ord])
  show ?thesis
  proof (cases ?P)
    case False
    from dw obtain s' res where d: "Delete s (Some k) = Some (s', res)"
      and lt: "lessThan s' = lessThan s" and hd: "header s' = header s"
      and r: "res = (None, False)" "wf_skiplist s' ns" "nodes s' = nodes s"
        "length_sl s' = length_sl s" "footer s' = footer s"
      unfolding if_not_P[OF False] by blast
    have n: "map_of (contents s ns) (Some k) = None"
      using False by (simp add: map_of_eq_None_iff contents_def image_image)
    have "contents s' ns = contents s ns" by (simp add: contents_def r(3))
    then have "map_of (contents s' ns) = (map_of (contents s ns))(Some k := None)"
      using n by (simp add: fun_eq_iff)
    with d lt hd r n show ?thesis
      by (intro exI[where x = s'] exI[where x = ns] exI[where x = res]) simp
  next
    case True
    from dw obtain s' res pre c r where d: "Delete s (Some k) = Some (s', res)"
      and lt: "lessThan s' = lessThan s"
      and kv: "\<And>x. key (nodes s' x) = key (nodes s x) \<and> val (nodes s' x) = val (nodes s x)"
      and ns: "ns = pre @ c # r" and kc: "key (nodes s c) = Some k"
      and res: "res = (val (nodes s c), True)" and wf': "wf_skiplist s' (pre @ r)"
      unfolding if_P[OF True] by blast
    have dk: "distinct (keys_of s (pre @ c # r))"
      using wf_keys_distinct[OF wf ord] ns by (simp add: keys_of_def)
    have nin: "Some k \<notin> fst ` set (contents s pre)" "Some k \<notin> fst ` set (contents s r)"
      using dk kc by (auto simp: keys_of_def contents_def image_image)
    have cs: "contents s ns = contents s pre @ (Some k, val (nodes s c)) # contents s r"
      by (simp add: ns contents_def kc)
    have cs': "contents s' (pre @ r) = contents s pre @ contents s r"
      by (simp add: contents_def kv)
    have m1: "map_of (contents s' (pre @ r)) = (map_of (contents s ns))(Some k := None)"
      unfolding cs cs' by (rule map_of_remove_middle(1)[OF nin])
    have m2: "map_of (contents s ns) (Some k) = Some (val (nodes s c))"
      unfolding cs by (rule map_of_remove_middle(2)[OF nin])
    show ?thesis
      using d wf' lt m1 m2 res True unfolding Pk
      by (intro exI[where x = s'] exI[where x = "pre @ r"] exI[where x = res]) simp
  qed
qed

lemma abs_map_Set:
  "map_of (contents s' ns') = (map_of (contents s ns))(Some k \<mapsto> v) \<Longrightarrow>
     abs_map s' ns' = (abs_map s ns)(k \<mapsto> v)"
  by (simp add: abs_map_def fun_eq_iff)

lemma abs_map_Delete:
  "map_of (contents s' ns') = (map_of (contents s ns))(Some k := None) \<Longrightarrow>
     abs_map s' ns' = (abs_map s ns)(k := None)"
  by (simp add: abs_map_def fun_eq_iff)

lemma run_op_sim:
  fixes s :: "('k, 'v) SkipList"
  assumes wf: "wf_skiplist s ns" and ord: "strict_total_order (lessThan s)"
  shows "\<exists>s' ns'. run_op s x = Some s' \<and> wf_skiplist s' ns' \<and> lessThan s' = lessThan s \<and>
           abs_map s' ns' = model_op (abs_map s ns) x"
proof (cases x)
  case (OpSet ko v c)
  show ?thesis
  proof (cases ko)
    case None
    with OpSet wf show ?thesis by auto
  next
    case (Some k)
    from Set_abs[OF wf ord, of k v c] obtain s' ns' where
      "Set s (Some k) v c = Some s'" "wf_skiplist s' ns'" "lessThan s' = lessThan s"
      "map_of (contents s' ns') = (map_of (contents s ns))(Some k \<mapsto> v)"
      by blast
    with OpSet Some show ?thesis
      by (auto simp: abs_map_Set)
  qed
next
  case (OpDelete ko)
  show ?thesis
  proof (cases ko)
    case None
    with OpDelete wf show ?thesis by auto
  next
    case (Some k)
    from Delete_abs[OF wf ord, of k] obtain s' ns' res where
      "Delete s (Some k) = Some (s', res)" "wf_skiplist s' ns'" "lessThan s' = lessThan s"
      "map_of (contents s' ns') = (map_of (contents s ns))(Some k := None)"
      by blast
    with OpDelete Some show ?thesis
      by (auto simp: abs_map_Delete)
  qed
qed

lemma run_ops_sim:
  fixes s :: "('k, 'v) SkipList"
  assumes "wf_skiplist s ns" and "strict_total_order (lessThan s)"
  shows "\<exists>s' ns'. run_ops s ops = Some s' \<and> wf_skiplist s' ns' \<and> lessThan s' = lessThan s \<and>
           abs_map s' ns' = foldl model_op (abs_map s ns) ops"
  using assms
proof (induction ops arbitrary: s ns)
  case Nil
  then show ?case by auto
next
  case (Cons x ops)
  from run_op_sim[OF Cons.prems, of x] obtain s1 ns1 where
    1: "run_op s x = Some s1" "wf_skiplist s1 ns1" "lessThan s1 = lessThan s"
      "abs_map s1 ns1 = model_op (abs_map s ns) x"
    by blast
  from Cons.prems(2) 1(3) have "strict_total_order (lessThan s1)" by simp
  from Cons.IH[OF 1(2) this, unfolded 1(3,4)] 1(1) show ?case
    by auto
qed

lemma reachable_wf:
  fixes lt :: "'k option \<Rightarrow> 'k option \<Rightarrow> bool"
  assumes "strict_total_order lt"
  shows "\<exists>(s :: ('k, 'v) SkipList) ns. run_ops (NewCustomMap lt) ops = Some s \<and> wf_skiplist s ns \<and>
           lessThan s = lt \<and> abs_map s ns = model ops"
proof -
  have l: "lessThan (NewCustomMap lt :: ('k, 'v) SkipList) = lt" by (simp add: NewCustomMap_def)
  have "abs_map (NewCustomMap lt :: ('k, 'v) SkipList) [] = Map.empty"
    by (simp add: abs_map_def contents_def)
  with run_ops_sim[OF NewCustomMap_wf, of lt ops] assms l show ?thesis
    by (auto simp: model_def)
qed

section \<open>Iterators on a well-formed list\<close>

lemma node_next_wf:
  assumes wf: "wf_skiplist s ns" and split: "header s # ns = xs @ c # ys"
  shows "node_next (nodes s c) = (case ys of [] \<Rightarrow> None | b # r \<Rightarrow> Some b)"
proof -
  have cin: "c \<in> set (header s # ns)" using split by (metis in_set_conv_decomp)
  have hpos: "0 < height (nodes s) c" using wf cin by (rule wf_height_pos)
  have "set ys \<subseteq> set ns" using split by (cases xs) auto
  then have pos: "\<forall>x\<in>set ys. 0 < height (nodes s) x"
    using wf by (auto simp: wf_skiplist_def)
  have "chainf (fwd (nodes s) 0) (c # tower (nodes s) 0 ys)"
    using wf split hpos by (rule wf_chain_from)
  then have "chainf (fwd (nodes s) 0) ([] @ c # ys)"
    using pos by (simp add: tower_0)
  then have "fwd (nodes s) 0 c = (case ys of [] \<Rightarrow> None | b # r \<Rightarrow> Some b)"
    by (rule chainf_next)
  then show ?thesis using hpos by (simp add: node_next_def fwd_def height_def)
qed

lemma backward_wf:
  assumes wf: "wf_skiplist s ns" and split: "ns = xs @ c # ys"
  shows "backward (nodes s c) = (if xs = [] then None else Some (last xs))"
  using wf unfolding split by (simp add: wf_skiplist_def backf_append)

lemma collect_Next_wf:
  fixes i :: "('k, 'v) iter"
  assumes wf: "wf_skiplist s ns"
  shows "header s # ns = xs @ c # ys \<Longrightarrow> current i = Some c \<Longrightarrow>
           collect_Next s i = Some (keys_of s ys)"
proof (induction ys arbitrary: xs c i)
  case Nil
  from node_next_wf[OF wf Nil(1)] have "node_next (nodes s c) = None" by simp
  then show ?case
    using Nil(2) by (subst collect_Next.simps) (simp add: iter_Next_def hasNext_def keys_of_def)
next
  case (Cons b ys)
  from node_next_wf[OF wf Cons(2)] have nn: "node_next (nodes s c) = Some b" by simp
  have sp: "header s # ns = (xs @ [c]) @ b # ys" using Cons(2) by simp
  have cur: "current (move_to s i b) = Some b" by (simp add: move_to_def)
  have "collect_Next s (move_to s i b) = Some (keys_of s ys)"
    by (rule Cons.IH[OF sp cur])
  then show ?case
    using Cons(3) nn
    by (subst collect_Next.simps)
       (simp add: iter_Next_def hasNext_def keys_of_def Key_def move_to_def)
qed

lemma collect_Previous_wf:
  fixes i :: "('k, 'v) iter"
  assumes wf: "wf_skiplist s ns"
  shows "ns = xs @ c # ys \<Longrightarrow> current i = Some c \<Longrightarrow>
           collect_Previous s i = Some (rev (keys_of s xs))"
proof (induction xs arbitrary: c ys i rule: rev_induct)
  case Nil
  from backward_wf[OF wf Nil(1)] have "backward (nodes s c) = None" by simp
  then show ?case
    using Nil(2)
    by (subst collect_Previous.simps)
       (simp add: iter_Previous_def hasPrevious_def node_previous_def keys_of_def)
next
  case (snoc b xs)
  from backward_wf[OF wf snoc(2)] have bb: "backward (nodes s c) = Some b" by simp
  have sp: "ns = xs @ b # (c # ys)" using snoc(2) by simp
  have cur: "current (move_to s i b) = Some b" by (simp add: move_to_def)
  have "collect_Previous s (move_to s i b) = Some (rev (keys_of s xs))"
    by (rule snoc.IH[OF sp cur])
  then show ?case
    using snoc(3) bb
    by (subst collect_Previous.simps)
       (simp add: iter_Previous_def hasPrevious_def node_previous_def keys_of_def Key_def move_to_def)
qed

lemma forward_keys_wf:
  assumes "wf_skiplist s ns"
  shows "forward_keys s = Some (keys_of s ns)"
proof -
  have "header s # ns = [] @ header s # ns" by simp
  moreover have "current (Iterator s) = Some (header s)" by (simp add: Iterator_def)
  ultimately show ?thesis
    unfolding forward_keys_def by (rule collect_Next_wf[OF assms])
qed

lemma backward_keys_wf:
  assumes wf: "wf_skiplist s ns"
  shows "backward_keys s = Some (rev (keys_of s ns))"
proof (cases ns rule: rev_cases)
  case Nil
  with wf show ?thesis
    by (simp add: backward_keys_def SeekToLast_def wf_skiplist_def keys_of_def)
next
  case (snoc xs c)
  then have ft: "footer s = Some c" using wf by (simp add: wf_skiplist_def)
  have sp: "ns = xs @ c # []" using snoc by simp
  have "collect_Previous s (iter_at s c) = Some (rev (keys_of s xs))"
    by (rule collect_Previous_wf[OF wf sp]) (simp add: iter_at_def)
  then show ?thesis
    by (simp add: backward_keys_def SeekToLast_def ft snoc keys_of_def Key_def iter_at_def)
qed

lemma length_keys_of [simp]: "length (keys_of s ns) = length ns"
  by (simp add: keys_of_def)

lemma wf_sorted_keys:
  "wf_skiplist s ns \<Longrightarrow> sorted_wrt (lessThan s) (keys_of s ns)"
  by (simp add: wf_skiplist_def keys_of_def sorted_wrt_map)

lemma set_keys_abs:
  assumes "wf_skiplist s ns"
  shows "set (keys_of s ns) = Some ` dom (abs_map s ns)"
proof -
  have nk: "\<forall>a\<in>set ns. key (nodes s a) \<noteq> None"
    using assms by (simp add: wf_skiplist_def)
  have d: "dom (map_of (contents s ns)) = set (keys_of s ns)"
    by (simp add: dom_map_of_conv_image_fst keys_of_def contents_def image_image)
  show ?thesis
  proof (rule set_eqI)
    fix q
    show "q \<in> set (keys_of s ns) \<longleftrightarrow> q \<in> Some ` dom (abs_map s ns)"
    proof (cases q)
      case None
      then show ?thesis using nk by (auto simp: keys_of_def)
    next
      case (Some k)
      have "q \<in> set (keys_of s ns) \<longleftrightarrow> Some k \<in> dom (map_of (contents s ns))"
        unfolding d Some ..
      also have "\<dots> \<longleftrightarrow> k \<in> dom (abs_map s ns)"
        by (simp add: abs_map_def dom_def)
      finally show ?thesis unfolding Some by blast
    qed
  qed
qed

section \<open>The claims\<close>

lemma int_lessThan_order: "strict_total_order int_lessThan"
  by (auto simp: strict_total_order_def int_lessThan_def)

lemma Len_card:
  assumes "wf_skiplist s ns" and "strict_total_order (lessThan s)"
  shows "Len s = int (card (dom (abs_map s ns)))"
proof -
  have "distinct (keys_of s ns)"
    using wf_keys_distinct[OF assms] by (simp add: keys_of_def)
  then have "card (set (keys_of s ns)) = length (keys_of s ns)"
    by (rule distinct_card)
  then have "length ns = card (set (keys_of s ns))" by simp
  also have "\<dots> = card (dom (abs_map s ns))"
    unfolding set_keys_abs[OF assms(1)] by (simp add: card_image)
  finally show ?thesis using assms(1) by (simp add: wf_Len)
qed

lemma Get_abs:
  assumes "wf_skiplist s ns" and "strict_total_order (lessThan s)"
  shows "Get s (Some k) = Some (case abs_map s ns k of None \<Rightarrow> (None, False) | Some v \<Rightarrow> (v, True))"
  using Get_wf[OF assms, of k] by (simp add: abs_map_def)

lemma abs_keys:
  assumes "wf_skiplist s ns"
  shows "Some k \<in> set (keys_of s ns) \<longleftrightarrow> k \<in> dom (abs_map s ns)"
  unfolding set_keys_abs[OF assms] by auto

lemma foldl_set_ops:
  "foldl model_op m (set_ops kvs) = m ++ last_set kvs"
proof (induction kvs arbitrary: m)
  case Nil
  then show ?case by (simp add: set_ops_def last_set_def)
next
  case (Cons x kvs)
  obtain k v c where x: "x = (k, v, c)" by (cases x)
  have "foldl model_op m (set_ops (x # kvs)) = foldl model_op (m(k \<mapsto> v)) (set_ops kvs)"
    by (simp add: set_ops_def x)
  also have "\<dots> = m(k \<mapsto> v) ++ last_set kvs" by (rule Cons.IH)
  also have "\<dots> = m ++ last_set (x # kvs)"
    by (simp add: last_set_def x map_add_def fun_eq_iff split: option.splits)
  finally show ?case .
qed

lemma model_set_ops: "model (set_ops kvs) = last_set kvs"
  by (simp add: model_def foldl_set_ops)

lemma dom_last_set: "dom (last_set kvs) = fst ` set kvs"
  by (force simp: last_set_def dom_map_of_conv_image_fst)

text \<open>
  Claim C1.  Start from an empty list with a strict total order and run any sequence of
  \<^verbatim>\<open>Set\<close> calls with non-nil keys, whatever the level draws.  The calls all return; afterwards
  \<^verbatim>\<open>Get(k)\<close> returns the value of the most recent \<^verbatim>\<open>Set(k, v)\<close> with found = true, and
  \<^verbatim>\<open>Len()\<close> is the number of distinct keys.  A further \<^verbatim>\<open>Set\<close> of a key that is present
  overwrites in place: no node is allocated, no link and no key changes, the length stays, and
  \<^verbatim>\<open>Get\<close> returns the new value.
\<close>

theorem C1_set_then_get_and_len:
  fixes lt :: "'k option \<Rightarrow> 'k option \<Rightarrow> bool"
    and kvs :: "('k \<times> 'v option \<times> (nat \<Rightarrow> bool)) list"
  assumes "strict_total_order lt"
  shows "\<exists>s. run_ops (NewCustomMap lt) (set_ops kvs) = Some s \<and>
           (\<forall>k v. last_set kvs k = Some v \<longrightarrow> Get s (Some k) = Some (v, True)) \<and>
           Len s = int (card (fst ` set kvs)) \<and>
           (\<forall>k v coins. k \<in> fst ` set kvs \<longrightarrow>
              (\<exists>s'. Set s (Some k) v coins = Some s' \<and> nalloc s' = nalloc s \<and> Len s' = Len s \<and>
                    Get s' (Some k) = Some (v, True) \<and>
                    (\<forall>x. forward (nodes s' x) = forward (nodes s x) \<and>
                         backward (nodes s' x) = backward (nodes s x) \<and>
                         key (nodes s' x) = key (nodes s x))))"
proof -
  from reachable_wf[OF assms, of "set_ops kvs"] obtain s :: "('k, 'v) SkipList" and ns where
    run: "run_ops (NewCustomMap lt) (set_ops kvs) = Some s" and wf: "wf_skiplist s ns"
    and lt: "lessThan s = lt" and ab: "abs_map s ns = last_set kvs"
    unfolding model_set_ops by blast
  have ord: "strict_total_order (lessThan s)" using assms lt by simp
  have g: "\<forall>k v. last_set kvs k = Some v \<longrightarrow> Get s (Some k) = Some (v, True)"
    using Get_abs[OF wf ord] by (simp add: ab)
  have l: "Len s = int (card (fst ` set kvs))"
    using Len_card[OF wf ord] by (simp add: ab dom_last_set)
  have o: "\<exists>s'. Set s (Some k) v coins = Some s' \<and> nalloc s' = nalloc s \<and> Len s' = Len s \<and>
                    Get s' (Some k) = Some (v, True) \<and>
                    (\<forall>x. forward (nodes s' x) = forward (nodes s x) \<and>
                         backward (nodes s' x) = backward (nodes s x) \<and>
                         key (nodes s' x) = key (nodes s x))"
    if k: "k \<in> fst ` set kvs" for k v coins
  proof -
    have pres: "Some k \<in> set (keys_of s ns)"
      using k unfolding abs_keys[OF wf] ab dom_last_set .
    from Set_abs[OF wf ord, of k v coins] pres obtain s' where
      s': "Set s (Some k) v coins = Some s'" "wf_skiplist s' ns" "lessThan s' = lessThan s"
        "map_of (contents s' ns) = (map_of (contents s ns))(Some k \<mapsto> v)" "nalloc s' = nalloc s"
        "\<forall>x. key (nodes s' x) = key (nodes s x) \<and> forward (nodes s' x) = forward (nodes s x) \<and>
             backward (nodes s' x) = backward (nodes s x)"
      by blast
    have ord': "strict_total_order (lessThan s')" using ord s'(3) by simp
    have "Get s' (Some k) = Some (v, True)"
      using Get_wf[OF s'(2) ord', of k] by (simp add: s'(4))
    moreover have "Len s' = Len s"
      using wf s'(2) by (simp add: wf_Len)
    ultimately show ?thesis using s' by blast
  qed
  show ?thesis
    using run g l o by blast
qed

theorem C1_witness:
  "\<exists>s. run_ops (NewCustomMap int_lessThan) (set_ops scenario) = Some s \<and>
        Get s (Some 1) = Some (Some 10, True) \<and> Get s (Some 9) = Some (Some 9, True) \<and>
        Len s = 5 \<and>
        (\<exists>s'. Set s (Some 4) (Some 44) tails = Some s' \<and> nalloc s' = nalloc s \<and> Len s' = Len s \<and>
              Get s' (Some 4) = Some (Some 44, True))"
proof -
  have c: "card (fst ` set scenario) = 5" by (simp add: scenario_def card_insert_if)
  have m: "last_set scenario 1 = Some (Some 10)" "last_set scenario 9 = Some (Some 9)"
    by (simp_all add: scenario_def last_set_def)
  have i: "4 \<in> fst ` set scenario" by (simp add: scenario_def)
  from C1_set_then_get_and_len[OF int_lessThan_order, of scenario] obtain s where
    "run_ops (NewCustomMap int_lessThan) (set_ops scenario) = Some s"
    "\<forall>k v. last_set scenario k = Some v \<longrightarrow> Get s (Some k) = Some (v, True)"
    "Len s = int (card (fst ` set scenario))"
    "\<forall>k v coins. k \<in> fst ` set scenario \<longrightarrow>
              (\<exists>s'. Set s (Some k) v coins = Some s' \<and> nalloc s' = nalloc s \<and> Len s' = Len s \<and>
                    Get s' (Some k) = Some (v, True) \<and>
                    (\<forall>x. forward (nodes s' x) = forward (nodes s x) \<and>
                         backward (nodes s' x) = backward (nodes s x) \<and>
                         key (nodes s' x) = key (nodes s x)))"
    by blast
  with c m i show ?thesis by (metis of_nat_numeral)
qed

section \<open>Seeking in a range iterator\<close>

text \<open>
  Claim C7 fails on the code.  A fresh \<^verbatim>\<open>Range(from, to)\<close> iterator stands on a synthetic node
  whose \<^verbatim>\<open>backward\<close> link is the first node of the range itself, so \<^verbatim>\<open>Seek\<close> "backs up"
  onto that node and searches strictly after it.  On the list with keys 3 and 4, the first
  entry with key at least 3 is 3 (as \<^verbatim>\<open>GetGreaterOrEqual\<close> and the list's own \<^verbatim>\<open>Seek\<close>
  say), but \<^verbatim>\<open>Range(2, 6).Seek(3)\<close> answers true and stands on 4; on the list with the single
  key 9, \<^verbatim>\<open>Range(9, 10).Seek(9)\<close> answers false although 9 is stored.
\<close>

theorem C7_range_seek_skips_first_entry:
  "(case run_ops (NewIntMap :: (int, int) SkipList)
           [OpSet (Some 3) (Some 30) tails, OpSet (Some 4) (Some 40) tails] of
      None \<Rightarrow> None
    | Some s \<Rightarrow>
        (case Range s (Some 2) (Some 6) of
           None \<Rightarrow> None
         | Some (s', i) \<Rightarrow>
             Some (GetGreaterOrEqual s' (Some 3),
                   map_option (map_option Key) (Seek s' (Some 3)),
                   map_option (\<lambda>(ok, i'). (ok, Key i')) (range_Seek s' i (Some 3)))))
     = Some (Some (Some 3, Some 30, True), Some (Some (Some 3)), Some (True, Some 4))
   \<and> (case run_ops (NewIntMap :: (int, int) SkipList) [OpSet (Some 9) (Some 90) tails] of
      None \<Rightarrow> None
    | Some s \<Rightarrow>
        (case Range s (Some 9) (Some 10) of
           None \<Rightarrow> None
         | Some (s', i) \<Rightarrow>
             Some (GetGreaterOrEqual s' (Some 9),
                   map_option fst (range_Seek s' i (Some 9)))))
     = Some (Some (Some 9, Some 90, True), Some False)"
  by code_simp

end
